theory Spec2Isabelle
  imports Main "HOL-Library.Word" "HOL-Library.AList"
begin

unbundle bit_operations_syntax

section \<open>JavaScript values and errors\<close>

type_synonym byte = "8 word"

text \<open>A value: a Buffer, a Number that is an integer, a string, or null.\<close>

datatype js_value = Buf "byte list" | Num int | Str string | Null

text \<open>
  The exceptions and error objects of \<^verbatim>\<open>errors.mjs\<close> and of the runtime.  An error
  object carries its message; \<open>ResponseInvalidError\<close> carries its numeric code and
  \<open>RequestFailedError\<close> its status, when it is given one.  \<open>LibraryError\<close> stands for
  whatever a collaborator (the BER reader, the message codec, the socket) throws or
  reports.
\<close>

datatype js_error =
    TypeError string
  | RangeError string
  | PlainError string
  | ResponseInvalidError string nat
  | RequestInvalidError string
  | RequestFailedError string "js_value option"
  | RequestTimedOutError string
  | LibraryError string

text \<open>
  What \<^verbatim>\<open>buffer.readInt()\<close> of the BER reader hands back: a Number for which
  \<^verbatim>\<open>Number.isInteger\<close> holds (an integer-valued double, which is an exact integer), or
  anything else (\<^verbatim>\<open>null\<close>, a fraction, NaN).
\<close>

datatype js_number = JInt int | JNotInteger

section \<open>object-parser: 32-bit readers\<close>

text \<open>
  \<^verbatim>\<open>readInt32\<close> and \<^verbatim>\<open>readUint32\<close>.  The reader's \<^verbatim>\<open>readInt\<close> is the BER library's and
  is a parameter; what it throws itself passes through as a \<open>LibraryError\<close>.
  \<^verbatim>\<open>parsedInt >>> 0\<close> is ToUint32: the integer taken as a 32-bit word and read unsigned.
\<close>

definition readInt32 :: "('r \<Rightarrow> string + js_number) \<Rightarrow> 'r \<Rightarrow> js_error + int" where
  "readInt32 readInt buffer =
     (case readInt buffer of
        Inl e \<Rightarrow> Inl (LibraryError e)
      | Inr JNotInteger \<Rightarrow> Inl (TypeError ''Value read as integer is not an integer'')
      | Inr (JInt parsedInt) \<Rightarrow>
          if parsedInt < - 2147483648 \<or> parsedInt > 2147483647
          then Inl (RangeError ''Value read as integer out of 32-bit range'')
          else Inr parsedInt)"

definition readUint32 :: "('r \<Rightarrow> string + js_number) \<Rightarrow> 'r \<Rightarrow> js_error + int" where
  "readUint32 readInt buffer =
     (case readInt buffer of
        Inl e \<Rightarrow> Inl (LibraryError e)
      | Inr JNotInteger \<Rightarrow> Inl (TypeError ''Value read as integer is not an integer'')
      | Inr (JInt parsedInt) \<Rightarrow>
          (let parseUint = uint (word_of_int parsedInt :: 32 word)
           in if parseUint < 0 \<or> parseUint > 4294967295
              then Inl (RangeError ''Value read as integer out of 32-bit unsigned range'')
              else Inr parseUint))"

section \<open>Protocol data\<close>

record varbind =
  oid :: string
  vtype :: nat
  vvalue :: js_value

text \<open>The tags of \<^verbatim>\<open>constants.mjs\<close> that the session reads.\<close>

definition NoSuchObject :: nat where "NoSuchObject = 128"
definition NoSuchInstance :: nat where "NoSuchInstance = 129"
definition EndOfMibView :: nat where "EndOfMibView = 130"

definition GetResponse :: nat where "GetResponse = 162"
definition Report :: nat where "Report = 168"

definition EUnknownPduType :: nat where "EUnknownPduType = 3"
definition EAuthFailure :: nat where "EAuthFailure = 5"
definition EReqResOidNoMatch :: nat where "EReqResOidNoMatch = 6"
definition EOutOfOrder :: nat where "EOutOfOrder = 8"
definition EVersionNoMatch :: nat where "EVersionNoMatch = 9"
definition ECommunityNoMatch :: nat where "ECommunityNoMatch = 10"
definition EUnexpectedReport :: nat where "EUnexpectedReport = 11"

definition UsmStatsBase :: string where "UsmStatsBase = ''1.3.6.1.6.3.15.1.1''"

text \<open>
  \<^verbatim>\<open>UsmStats\<close> after \<^verbatim>\<open>expandConstantObject\<close>: the six names under their numeric keys,
  and each name as a key of its number.  Looked up and used as an error message, a number
  shows as its decimal digit.
\<close>

definition UsmStats :: "string \<Rightarrow> string option" where
  "UsmStats k =
     (if k = ''1'' then Some ''Unsupported Security Level''
      else if k = ''2'' then Some ''Not In Time Window''
      else if k = ''3'' then Some ''Unknown User Name''
      else if k = ''4'' then Some ''Unknown Engine ID''
      else if k = ''5'' then Some ''Wrong Digest (incorrect password, community or key)''
      else if k = ''6'' then Some ''Decryption Error''
      else if k = ''Unsupported Security Level'' then Some ''1''
      else if k = ''Not In Time Window'' then Some ''2''
      else if k = ''Unknown User Name'' then Some ''3''
      else if k = ''Unknown Engine ID'' then Some ''4''
      else if k = ''Wrong Digest (incorrect password, community or key)'' then Some ''5''
      else if k = ''Decryption Error'' then Some ''6''
      else None)"

text \<open>\<^verbatim>\<open>ErrorStatus[n]\<close> for the status numbers 0 to 18.\<close>

definition ErrorStatus :: "int \<Rightarrow> string option" where
  "ErrorStatus n =
     (if n = 0 then Some ''NoError''
      else if n = 1 then Some ''TooBig'' else if n = 2 then Some ''NoSuchName''
      else if n = 3 then Some ''BadValue'' else if n = 4 then Some ''ReadOnly''
      else if n = 5 then Some ''GeneralError'' else if n = 6 then Some ''NoAccess''
      else if n = 7 then Some ''WrongType'' else if n = 8 then Some ''WrongLength''
      else if n = 9 then Some ''WrongEncoding'' else if n = 10 then Some ''WrongValue''
      else if n = 11 then Some ''NoCreation'' else if n = 12 then Some ''InconsistentValue''
      else if n = 13 then Some ''ResourceUnavailable'' else if n = 14 then Some ''CommitFailed''
      else if n = 15 then Some ''UndoFailed'' else if n = 16 then Some ''AuthorizationError''
      else if n = 17 then Some ''NotWritable'' else if n = 18 then Some ''InconsistentName''
      else None)"

definition isVarbindError :: "varbind \<Rightarrow> bool" where
  "isVarbindError vb \<longleftrightarrow>
     vtype vb = NoSuchObject \<or> vtype vb = NoSuchInstance \<or> vtype vb = EndOfMibView"

text \<open>Decimal rendering of a number inside a message.\<close>

fun decimal :: "nat \<Rightarrow> string" where
  "decimal n =
     (if n < 10 then [char_of (48 + n)]
      else decimal (n div 10) @ [char_of (48 + n mod 10)])"

declare decimal.simps [simp del]

record sec_params =
  msgAuthoritativeEngineID :: string
  msgAuthoritativeEngineBoots :: int
  msgAuthoritativeEngineTime :: int
  msgUserName :: "string option"
  msgAuthenticationParameters :: "string option"
  msgPrivacyParameters :: "string option"

record pdu =
  ptype :: nat
  pvarbinds :: "varbind list"
  errorStatus :: int
  errorIndex :: int
  contextName :: string

text \<open>
  Modelled from the spec: the codec and security provider (\<^verbatim>\<open>Message\<close> of the legacy
  build, not under src/).  What it computes for a message is carried by the message:
  \<open>reqId\<close> is \<^verbatim>\<open>getReqId()\<close>, \<open>wire\<close> is \<^verbatim>\<open>toBuffer()\<close>, the encoded bytes (\<open>None\<close>
  when it throws), and \<open>securityFailure\<close> is the error that \<^verbatim>\<open>processIncomingSecurity\<close>
  hands to the failure callback when it answers false (\<open>None\<close> when it answers true).
\<close>

record message =
  version :: nat
  community :: "string option"
  mpdu :: pdu
  reqId :: nat
  msgSecurityParameters :: "sec_params option"
  wire :: "byte list option"
  securityFailure :: "js_error option"

text \<open>
  What a response callback is invoked with: an error, the result array, or nothing
  (\<^verbatim>\<open>responseCb(null)\<close> of a trap).  An entry of a result array is a varbind or, for a
  repeater of GetBulk, a list of varbinds.
\<close>

datatype result_entry = Single varbind | Bucket "varbind list"

datatype outcome = Failure js_error | Success "result_entry list" | Sent

text \<open>
  Modelled from the spec: the pending request (\<^verbatim>\<open>Req\<close> of the legacy build, not under
  src/), with the fields that the session reads and writes; its id is the request id of
  its message, and a new one takes the session's retry count.  \<open>responseCb\<close> names the
  caller's callback.  A feed callback is given the request's message and the reply and
  either invokes the response callback with an outcome or throws.  Durations
  (\<^verbatim>\<open>timeout\<close>, \<^verbatim>\<open>backoff\<close>) are not modelled: a timer is pending until it fires or is
  cleared.
\<close>

record req =
  rmessage :: message
  responseCb :: nat
  feedCb :: "message \<Rightarrow> message \<Rightarrow> js_error + outcome"
  retries :: int
  port :: nat
  originalPdu :: "pdu option"
  allowReport :: bool
  timer :: "nat option"

definition getId :: "req \<Rightarrow> nat" where
  "getId q = reqId (rmessage q)"

section \<open>Session\<close>

text \<open>
  The session's state, as far as the registry and the dispatch of replies use it.
  Request objects live in \<open>heap\<close> under a reference, since the registry, a timer's closure and a send in flight all hold the same object.  \<open>reqs\<close> is
  the registry (request id to reference), \<open>timers\<close> the pending timeouts (handle to
  reference), \<open>sending\<close> the \<^verbatim>\<open>dgram.send\<close> calls whose completion callback has not run
  yet, \<open>dgramRef\<close> whether the socket is ref'd.  \<open>callbacks\<close> records every invocation
  of a response callback, in order; \<open>uncaught\<close> the exceptions that leave a handler.
\<close>

record session =
  sessionContext :: string
  sretries :: int
  sport :: nat
  proxy :: "string option"
  sessionSecurityParameters :: "sec_params option"
  reqs :: "(nat \<times> nat) list"
  reqCount :: int
  dgramRef :: bool
  heap :: "nat \<Rightarrow> req"
  nextRef :: nat
  timers :: "(nat \<times> nat) list"
  nextTimer :: nat
  sending :: "(nat \<times> bool \<times> byte list) list"
  callbacks :: "(nat \<times> outcome) list"
  emitted :: "string list"
  forwarded :: "message list"
  uncaught :: "js_error list"

text \<open>
  The constructor: an empty registry, a count of 0 and \<^verbatim>\<open>dgram.unref()\<close>.  The request
  objects that the operations will be given are there from the start, in \<open>h\<close> under the
  references below \<open>k\<close>; a request created later gets the next reference.
\<close>

definition newSession :: "string \<Rightarrow> int \<Rightarrow> nat \<Rightarrow> (nat \<Rightarrow> req) \<Rightarrow> nat \<Rightarrow> session" where
  "newSession ctx n p h k =
     \<lparr> sessionContext = ctx, sretries = n, sport = p, proxy = None,
       sessionSecurityParameters = None, reqs = [], reqCount = 0, dgramRef = False,
       heap = h, nextRef = k, timers = [], nextTimer = 0, sending = [], callbacks = [],
       emitted = [], forwarded = [], uncaught = [] \<rparr>"

definition deliver :: "nat \<Rightarrow> outcome \<Rightarrow> session \<Rightarrow> session" where
  "deliver r out s = s\<lparr>callbacks := callbacks s @ [(responseCb (heap s r), out)]\<rparr>"

definition clearTimeout :: "nat option \<Rightarrow> session \<Rightarrow> session" where
  "clearTimeout t s =
     (case t of None \<Rightarrow> s | Some h \<Rightarrow> s\<lparr>timers := AList.delete h (timers s)\<rparr>)"

definition unregisterRequest :: "nat \<Rightarrow> session \<Rightarrow> session \<times> nat option" where
  "unregisterRequest i s =
     (case map_of (reqs s) i of
        Some r \<Rightarrow>
          (let s1 = s\<lparr>reqs := AList.delete i (reqs s)\<rparr>;
               s2 = clearTimeout (timer (heap s1 r)) s1;
               s3 = s2\<lparr>heap := (heap s2)(r := (heap s2 r)\<lparr>timer := None\<rparr>)\<rparr>;
               s4 = s3\<lparr>reqCount := reqCount s3 - 1\<rparr>;
               s5 = (if reqCount s4 \<le> 0 then s4\<lparr>dgramRef := False\<rparr> else s4)
           in (s5, Some r))
      | None \<Rightarrow> (s, None))"

text \<open>
  \<^verbatim>\<open>send\<close>: the message is encoded and handed to the socket; the completion callback
  runs later (\<open>sendDone\<close>).  An exception of \<^verbatim>\<open>toBuffer\<close> goes to the response callback
  (the socket's \<^verbatim>\<open>send\<close> is taken not to throw at the call).
\<close>

definition send :: "nat \<Rightarrow> bool \<Rightarrow> session \<Rightarrow> session" where
  "send r noWait s =
     (case wire (rmessage (heap s r)) of
        Some buffer \<Rightarrow> s\<lparr>sending := sending s @ [(r, noWait, buffer)]\<rparr>
      | None \<Rightarrow> deliver r (Failure (LibraryError ''toBuffer'')) s)"

text \<open>The body of the timer that \<^verbatim>\<open>registerRequest\<close> arms, run when timer \<open>h\<close> fires.\<close>

definition timerFire :: "nat \<Rightarrow> session \<Rightarrow> session" where
  "timerFire h s =
     (case map_of (timers s) h of
        None \<Rightarrow> s
      | Some r \<Rightarrow>
          (let s0 = s\<lparr>timers := AList.delete h (timers s)\<rparr>;
               n = retries (heap s0 r);
               s1 = s0\<lparr>heap := (heap s0)(r := (heap s0 r)\<lparr>retries := n - 1\<rparr>)\<rparr>
           in if n > 0 then send r False s1
              else (let s2 = fst (unregisterRequest (getId (heap s1 r)) s1)
                    in deliver r (Failure (RequestTimedOutError ''Request timed out'')) s2)))"

definition registerRequest :: "nat \<Rightarrow> session \<Rightarrow> session" where
  "registerRequest r s =
     (let i = getId (heap s r);
          s1 = (if map_of (reqs s) i = None
                then (let a = s\<lparr>reqs := reqs s @ [(i, r)]\<rparr>;
                          b = (if reqCount a \<le> 0 then a\<lparr>dgramRef := True\<rparr> else a)
                      in b\<lparr>reqCount := reqCount b + 1\<rparr>)
                else s);
          h = nextTimer s1
      in s1\<lparr>timers := timers s1 @ [(h, r)], nextTimer := h + 1,
             heap := (heap s1)(r := (heap s1 r)\<lparr>timer := Some h\<rparr>)\<rparr>)"

text \<open>The completion callback of the oldest \<^verbatim>\<open>dgram.send\<close> in flight.\<close>

definition sendDone :: "string option \<Rightarrow> session \<Rightarrow> session" where
  "sendDone err s =
     (case sending s of
        [] \<Rightarrow> s
      | (r, noWait, buffer) # rest \<Rightarrow>
          (let s1 = s\<lparr>sending := rest\<rparr>
           in case err of
                Some e \<Rightarrow> deliver r (Failure (LibraryError e)) s1
              | None \<Rightarrow> if noWait then deliver r Sent s1 else registerRequest r s1))"

text \<open>
  \<^verbatim>\<open>cancelRequests\<close>: \<^verbatim>\<open>for (const id in this.reqs)\<close> visits the ids in ascending order
  and skips an id that has been deleted before its turn.
\<close>

definition cancelOne :: "js_error \<Rightarrow> session \<Rightarrow> nat \<Rightarrow> session" where
  "cancelOne error s i =
     (case map_of (reqs s) i of
        None \<Rightarrow> s
      | Some r \<Rightarrow> deliver r (Failure error) (fst (unregisterRequest (getId (heap s r)) s)))"

definition cancelRequests :: "js_error \<Rightarrow> session \<Rightarrow> session" where
  "cancelRequests error s = foldl (cancelOne error) s (sort (map fst (reqs s)))"

definition onClose :: "session \<Rightarrow> session" where
  "onClose s =
     (let s1 = cancelRequests (PlainError ''Socket forcibly closed'') s
      in s1\<lparr>emitted := emitted s1 @ [''close'']\<rparr>)"

text \<open>A sequence of calls of the registry's two operations.\<close>

datatype registry_call = RegisterRequest nat | UnregisterRequest nat

fun apply_call :: "session \<Rightarrow> registry_call \<Rightarrow> session" where
  "apply_call s (RegisterRequest r) = registerRequest r s"
| "apply_call s (UnregisterRequest i) = fst (unregisterRequest i s)"

definition registry_calls :: "registry_call list \<Rightarrow> session \<Rightarrow> session" where
  "registry_calls cs s = foldl apply_call s cs"

definition registry_inv :: "session \<Rightarrow> bool" where
  "registry_inv s \<longleftrightarrow>
     distinct (map fst (reqs s)) \<and> reqCount s = int (length (reqs s))
     \<and> dgramRef s = (0 < reqCount s)"

text \<open>A community request with id 7, used to run the registry on concrete input.\<close>

definition demo_message :: message where
  "demo_message =
     \<lparr> version = 1, community = Some ''public'',
       mpdu = \<lparr> ptype = 160, pvarbinds = [], errorStatus = 0, errorIndex = 0, contextName = [] \<rparr>,
       reqId = 7, msgSecurityParameters = None, wire = Some [48, 0], securityFailure = None \<rparr>"

definition demo_req :: req where
  "demo_req =
     \<lparr> rmessage = demo_message, responseCb = 0, feedCb = (\<lambda>_ m. Inr (Success (map Single (pvarbinds (mpdu m))))),
       retries = 1, port = 161, originalPdu = None, allowReport = False, timer = None \<rparr>"

section \<open>Strings and OIDs\<close>

text \<open>
  The string operations of the runtime that the session uses.  \<^verbatim>\<open>s.indexOf(p) === 0\<close>
  says that \<open>s\<close> starts with \<open>p\<close>; \<^verbatim>\<open>s.replace(p, '')\<close> with a string \<open>p\<close> removes the
  first occurrence of \<open>p\<close>, wherever it is; \<^verbatim>\<open>s.replace(/\.0$/, '')\<close> removes a final
  \<^verbatim>\<open>.0\<close>; \<^verbatim>\<open>s.split('.')\<close> cuts at every dot and keeps empty pieces.
\<close>

definition startsWith :: "string \<Rightarrow> string \<Rightarrow> bool" where
  "startsWith s p \<longleftrightarrow> take (length p) s = p"

fun removeFirst :: "string \<Rightarrow> string \<Rightarrow> string" where
  "removeFirst p [] = []"
| "removeFirst p (c # cs) =
     (if take (length p) (c # cs) = p then drop (length p) (c # cs)
      else c # removeFirst p cs)"

definition stripDotZero :: "string \<Rightarrow> string" where
  "stripDotZero s =
     (if 2 \<le> length s \<and> drop (length s - 2) s = ''.0'' then take (length s - 2) s else s)"

fun splitDot :: "string \<Rightarrow> string list" where
  "splitDot [] = [[]]"
| "splitDot (c # cs) =
     (if c = CHR ''.'' then [] # splitDot cs
      else (case splitDot cs of p # ps \<Rightarrow> (c # p) # ps | [] \<Rightarrow> [[c]]))"

text \<open>\<^verbatim>\<open>oidInSubtree\<close>: the loop over the components of the base, both lists in step.\<close>

fun componentsMatch :: "string list \<Rightarrow> string list \<Rightarrow> bool" where
  "componentsMatch [] next = True"
| "componentsMatch (a # as) [] = False"
| "componentsMatch (a # as) (b # bs) = (if b \<noteq> a then False else componentsMatch as bs)"

definition oidInSubtree :: "string \<Rightarrow> string \<Rightarrow> bool" where
  "oidInSubtree oidString nextString =
     (let oid = splitDot oidString; next = splitDot nextString
      in if length oid > length next then False else componentsMatch oid next)"

section \<open>Incoming messages\<close>

definition userSecurityModelError :: "nat \<Rightarrow> string \<Rightarrow> session \<Rightarrow> session" where
  "userSecurityModelError r oidString s =
     (let oidSuffix = stripDotZero (removeFirst (UsmStatsBase @ ''.'') oidString);
          errorType = (case UsmStats oidSuffix of Some t \<Rightarrow> t | None \<Rightarrow> ''Unexpected Report PDU'')
      in deliver r (Failure (ResponseInvalidError errorType EAuthFailure)) s)"

text \<open>
  \<^verbatim>\<open>sendV3Req\<close>.  \<^verbatim>\<open>Message.createRequestV3\<close> is the codec's and is a parameter; the user
  it is given does not change and is left out.  The new \<^verbatim>\<open>Req\<close> takes its retries from
  the session.
\<close>

definition sendV3Req ::
  "(sec_params option \<Rightarrow> pdu \<Rightarrow> message) \<Rightarrow> pdu \<Rightarrow> (message \<Rightarrow> message \<Rightarrow> js_error + outcome)
     \<Rightarrow> nat \<Rightarrow> nat \<Rightarrow> bool \<Rightarrow> session \<Rightarrow> session" where
  "sendV3Req createRequestV3 p feed cb prt allow s =
     (let m = createRequestV3 (sessionSecurityParameters s) p;
          r = nextRef s;
          q = \<lparr> rmessage = m, responseCb = cb, feedCb = feed, retries = sretries s, port = prt,
                originalPdu = Some p, allowReport = allow, timer = None \<rparr>
      in send r False (s\<lparr>heap := (heap s)(r := q), nextRef := r + 1\<rparr>))"

text \<open>
  \<^verbatim>\<open>onSimpleGetResponse\<close>.  For a status that \<^verbatim>\<open>ErrorStatus\<close> does not name,
  \<^verbatim>\<open>ErrorStatus[pdu.errorStatus] || ErrorStatus.GeneralError\<close> is the number 5, which shows
  as \<open>5\<close> in the message, and the code looked up for it is the string \<open>GeneralError\<close>.
\<close>

definition onSimpleGetResponse :: "nat \<Rightarrow> message \<Rightarrow> session \<Rightarrow> session" where
  "onSimpleGetResponse r m s =
     (let p = mpdu m in
      if errorStatus p > 0 then
        (let statusString = (case ErrorStatus (errorStatus p) of Some n \<Rightarrow> n | None \<Rightarrow> ''5'');
             statusCode = (case ErrorStatus (errorStatus p) of
                             Some n \<Rightarrow> Num (errorStatus p) | None \<Rightarrow> Str ''GeneralError'')
         in if errorIndex p \<le> 0 \<or> errorIndex p > int (length (pvarbinds p))
            then deliver r (Failure (RequestFailedError statusString (Some statusCode))) s
            else deliver r (Failure (RequestFailedError
                   (statusString @ '': '' @ oid (pvarbinds p ! nat (errorIndex p - 1)))
                   (Some statusCode))) s)
      else (case feedCb (heap s r) (rmessage (heap s r)) m of
              Inr out \<Rightarrow> deliver r out s
            | Inl e \<Rightarrow> s\<lparr>uncaught := uncaught s @ [e]\<rparr>))"

text \<open>
  \<^verbatim>\<open>onProxyResponse\<close>: \<^verbatim>\<open>this.callback\<close> is not a member of the session, so the call for
  a reply that is not version 3 throws; otherwise the reply goes to the proxy's listener
  (the rewriting of its security fields is not followed here).
\<close>

definition onProxyResponse :: "nat \<Rightarrow> message \<Rightarrow> session \<Rightarrow> session" where
  "onProxyResponse r m s =
     (if version m \<noteq> 3 then s\<lparr>uncaught := uncaught s @ [TypeError ''this.callback is not a function'']\<rparr>
      else s\<lparr>forwarded := forwarded s @ [m]\<rparr>)"

definition showCommunity :: "string option \<Rightarrow> string" where
  "showCommunity c = (case c of Some x \<Rightarrow> x | None \<Rightarrow> ''undefined'')"

text \<open>
  The branch of \<^verbatim>\<open>onMsg\<close> for a Report PDU, for the request \<open>r\<close> just unregistered.
  \<open>reportRefused\<close> is the block for a request that may not take a report.
\<close>

definition reportRefused :: "nat \<Rightarrow> message \<Rightarrow> session \<Rightarrow> session" where
  "reportRefused r m s =
     (case pvarbinds (mpdu m) of
        vb # rest \<Rightarrow>
          if startsWith (oid vb) UsmStatsBase then userSecurityModelError r (oid vb) s
          else deliver r (Failure (ResponseInvalidError ''Unexpected Report PDU'' EUnexpectedReport)) s
      | [] \<Rightarrow> deliver r (Failure (ResponseInvalidError ''Unexpected Report PDU'' EUnexpectedReport)) s)"

definition onReport ::
  "(sec_params option \<Rightarrow> pdu \<Rightarrow> message) \<Rightarrow> nat \<Rightarrow> message \<Rightarrow> session \<Rightarrow> session" where
  "onReport createRequestV3 r m s =
     (case msgSecurityParameters m of
        None \<Rightarrow> s\<lparr>uncaught := uncaught s @ [TypeError ''Cannot read properties of undefined'']\<rparr>
      | Some sp \<Rightarrow>
          (let params = \<lparr> msgAuthoritativeEngineID = msgAuthoritativeEngineID sp,
                          msgAuthoritativeEngineBoots = msgAuthoritativeEngineBoots sp,
                          msgAuthoritativeEngineTime = msgAuthoritativeEngineTime sp,
                          msgUserName = None, msgAuthenticationParameters = None,
                          msgPrivacyParameters = None \<rparr>;
               s1 = s\<lparr>sessionSecurityParameters := Some params\<rparr>;
               q = heap s1 r
           in case proxy s1 of
                Some name \<Rightarrow>
                  s1\<lparr>sessionSecurityParameters :=
                       Some (params\<lparr>msgUserName := Some name, msgAuthenticationParameters := Some [],
                                     msgPrivacyParameters := Some []\<rparr>)\<rparr>
              | None \<Rightarrow>
                  (case originalPdu q of
                     None \<Rightarrow> reportRefused r m s1
                   | Some p0 \<Rightarrow>
                       if \<not> allowReport q then reportRefused r m s1
                       else
                         (let p = p0\<lparr>contextName := sessionContext s1\<rparr>;
                              timeSyncNeeded = (msgAuthoritativeEngineBoots sp = 0
                                                 \<and> msgAuthoritativeEngineTime sp = 0)
                          in sendV3Req createRequestV3 p (feedCb q) (responseCb q) (port q)
                               timeSyncNeeded s1))))"

definition onMsg ::
  "(sec_params option \<Rightarrow> pdu \<Rightarrow> message) \<Rightarrow> message option \<Rightarrow> session \<Rightarrow> session" where
  "onMsg createRequestV3 decoded s =
     (case decoded of
        None \<Rightarrow> s\<lparr>emitted := emitted s @ [''error'']\<rparr>
      | Some m \<Rightarrow>
          (case unregisterRequest (reqId m) s of
             (s1, None) \<Rightarrow> s1
           | (s1, Some r) \<Rightarrow>
               (let q = heap s1 r in
                case securityFailure m of
                  Some e \<Rightarrow> deliver r (Failure e) s1
                | None \<Rightarrow>
                    if version m \<noteq> version (rmessage q) then
                      deliver r (Failure (ResponseInvalidError
                        (''Version in request '' @ [CHR 0x27] @ decimal (version (rmessage q)) @ [CHR 0x27]
                          @ '' does not match version in response '' @ [CHR 0x27]
                          @ decimal (version m) @ [CHR 0x27]) EVersionNoMatch)) s1
                    else if community m \<noteq> community (rmessage q) then
                      deliver r (Failure (ResponseInvalidError
                        (''Community '' @ [CHR 0x27] @ showCommunity (community (rmessage q)) @ [CHR 0x27]
                          @ '' in request does not match community '' @ [CHR 0x27]
                          @ showCommunity (community m) @ [CHR 0x27] @ '' in response'')
                        ECommunityNoMatch)) s1
                    else if ptype (mpdu m) = Report then onReport createRequestV3 r m s1
                    else if proxy s1 \<noteq> None then onProxyResponse r m s1
                    else if ptype (mpdu m) = GetResponse then onSimpleGetResponse r m s1
                    else deliver r (Failure (ResponseInvalidError
                           (''Unknown PDU type '' @ [CHR 0x27] @ decimal (ptype (mpdu m)) @ [CHR 0x27]
                             @ '' in response'') EUnknownPduType)) s1)))"

text \<open>
  The events that reach a session: the completion of the oldest send in flight (with the
  socket's error, if any), a timer firing, a datagram (decoded, or \<open>None\<close> when decoding
  throws) and the socket closing.
\<close>

datatype event =
    SendCompletes "string option"
  | TimerFires nat
  | Datagram "message option"
  | SocketCloses

fun handle :: "(sec_params option \<Rightarrow> pdu \<Rightarrow> message) \<Rightarrow> session \<Rightarrow> event \<Rightarrow> session" where
  "handle cr s (SendCompletes err) = sendDone err s"
| "handle cr s (TimerFires h) = timerFire h s"
| "handle cr s (Datagram d) = onMsg cr d s"
| "handle cr s SocketCloses = onClose s"

definition run :: "(sec_params option \<Rightarrow> pdu \<Rightarrow> message) \<Rightarrow> event list \<Rightarrow> session \<Rightarrow> session" where
  "run cr evs s = foldl (handle cr) s evs"


text \<open>The session once the request with id 7 has been sent and registered with \<open>n\<close> retries.\<close>

definition armed :: "int \<Rightarrow> session" where
  "armed n = registerRequest 0 (newSession [] n 161 (\<lambda>_. demo_req\<lparr>retries := n\<rparr>) 1)"

text \<open>
  The reply to the request with id 7, and the session at the moment that request has been
  handed to \<^verbatim>\<open>send\<close> for the first time (one retry allowed).
\<close>

definition demo_reply :: message where
  "demo_reply =
     demo_message\<lparr>mpdu := \<lparr> ptype = 162,
        pvarbinds = [\<lparr> oid = ''1.3.6.1.2.1.1.3.0'', vtype = 67, vvalue = Num 42 \<rparr>],
        errorStatus = 0, errorIndex = 0, contextName = [] \<rparr>\<rparr>"

definition demo_start :: session where
  "demo_start = send 0 False (newSession [] 1 161 (\<lambda>_. demo_req) 1)"

text \<open>The numeric keys of \<^verbatim>\<open>UsmStats\<close>: the six USM statistics.\<close>

definition usmStatsKeys :: "string list" where
  "usmStatsKeys = [''1'', ''2'', ''3'', ''4'', ''5'', ''6'']"

text \<open>
  A version 3 request with id 9 (with or without an original PDU, allowed a report or
  not), the session in which it is pending, and a Report PDU for it whose first varbind
  has the given OID.
\<close>

definition v3_message :: message where
  "v3_message =
     \<lparr> version = 3, community = None,
       mpdu = \<lparr> ptype = 160, pvarbinds = [\<lparr> oid = ''1.3.6.1.2.1.1.3.0'', vtype = 5, vvalue = Null \<rparr>],
                errorStatus = 0, errorIndex = 0, contextName = [] \<rparr>,
       reqId = 9, msgSecurityParameters = None, wire = Some [48, 1], securityFailure = None \<rparr>"

definition v3_req :: "pdu option \<Rightarrow> bool \<Rightarrow> req" where
  "v3_req p allow =
     \<lparr> rmessage = v3_message, responseCb = 4,
       feedCb = (\<lambda>_ m. Inr (Success (map Single (pvarbinds (mpdu m))))),
       retries = 1, port = 161, originalPdu = p, allowReport = allow, timer = None \<rparr>"

definition v3_pending :: "pdu option \<Rightarrow> bool \<Rightarrow> session" where
  "v3_pending p allow = registerRequest 0 (newSession [] 1 161 (\<lambda>_. v3_req p allow) 1)"

definition v3_report :: "string \<Rightarrow> message" where
  "v3_report x =
     \<lparr> version = 3, community = None,
       mpdu = \<lparr> ptype = 168, pvarbinds = [\<lparr> oid = x, vtype = 65, vvalue = Num 1 \<rparr>],
                errorStatus = 0, errorIndex = 0, contextName = [] \<rparr>,
       reqId = 9,
       msgSecurityParameters = Some \<lparr> msgAuthoritativeEngineID = ''engine'',
         msgAuthoritativeEngineBoots = 0, msgAuthoritativeEngineTime = 0, msgUserName = None,
         msgAuthenticationParameters = None, msgPrivacyParameters = None \<rparr>,
       wire = None, securityFailure = None \<rparr>"

section \<open>Numbers\<close>

text \<open>
  A JavaScript Number is a double.  The computations modelled here stay on integers, so a
  Number is an \<open>int\<close>, and \<open>fl\<close> is what an arithmetic operation does to its exact
  result: rounding to the nearest double, ties to the even significand.  A double has a
  significand of 53 bits; \<open>ulpExp m\<close> is the number of low bits that \<open>m\<close> loses.  (No
  overflow to infinity: the model is that of magnitudes below \<open>2^1024\<close>.)
\<close>

function ulpExp :: "nat \<Rightarrow> nat" where
  "ulpExp m = (if m < 2 ^ 53 then 0 else Suc (ulpExp (m div 2)))"
  by pat_completeness auto
termination
  by (relation "measure (\<lambda>m. m)") auto

declare ulpExp.simps [simp del]

definition fl :: "int \<Rightarrow> int" where
  "fl x =
     (let m = nat \<bar>x\<bar>; e = ulpExp m; q = m div 2 ^ e; r = m mod 2 ^ e;
          q' = (if r = 0 then q
                else if 2 * r < 2 ^ e then q
                else if 2 * r > 2 ^ e then q + 1
                else if even q then q else q + 1)
      in sgn x * int (q' * 2 ^ e))"

section \<open>object-parser: OID ordering\<close>

text \<open>
  \<^verbatim>\<open>oidFollowsOid\<close>.  An item \<^verbatim>\<open>{str, len, idx}\<close> only ever moves its index forward, so
  it is the rest of its string.  \<open>scanNumber\<close> is the loop of \<^verbatim>\<open>getNumber\<close>;
  \<^verbatim>\<open>getNumber\<close> answers \<^verbatim>\<open>null\<close> on an exhausted item, else the number read and the rest
  after the dot.
\<close>

fun scanNumber :: "int \<Rightarrow> string \<Rightarrow> int \<times> string" where
  "scanNumber n [] = (n, [])"
| "scanNumber n (c # cs) =
     (if c = CHR ''.'' then (n, cs)
      else scanNumber (fl (fl (if n \<noteq> 0 then n * 10 else n) + (of_char c - 48))) cs)"

definition getNumber :: "string \<Rightarrow> (int \<times> string) option" where
  "getNumber item = (if item = [] then None else Some (scanNumber 0 item))"

lemma scanNumber_length: "length (snd (scanNumber n s)) \<le> length s"
  by (induction s arbitrary: n) (auto simp: le_SucI)

lemma getNumber_shorter: "getNumber s = Some (n, t) \<Longrightarrow> length t < length s"
proof (cases s)
  case Nil
  assume "getNumber s = Some (n, t)"
  with Nil show ?thesis by (simp add: getNumber_def)
next
  case (Cons c cs)
  assume g: "getNumber s = Some (n, t)"
  show ?thesis
  proof (cases "c = CHR ''.''")
    case True
    with g Cons show ?thesis by (simp add: getNumber_def)
  next
    case False
    with g Cons have "t = snd (scanNumber (fl (fl 0 + (of_char c - 48))) cs)"
      by (simp add: getNumber_def)
    with Cons scanNumber_length [of "fl (fl 0 + (of_char c - 48))" cs] show ?thesis by simp
  qed
qed

function oidFollowsOid :: "string \<Rightarrow> string \<Rightarrow> bool" where
  "oidFollowsOid oidString nextString =
     (case getNumber oidString of
        None \<Rightarrow> True
      | Some (oidNumber, oidRest) \<Rightarrow>
          (case getNumber nextString of
             None \<Rightarrow> True
           | Some (nextNumber, nextRest) \<Rightarrow>
               if nextNumber > oidNumber then True
               else if nextNumber < oidNumber then False
               else oidFollowsOid oidRest nextRest))"
  by pat_completeness auto
termination
  by (relation "measure (\<lambda>(a, b). length a)") (auto dest: getNumber_shorter)

declare oidFollowsOid.simps [simp del]


section \<open>Session.getBulk: the feed callback\<close>

text \<open>
  The single quote of the messages, and the check that both loops of the feed callback
  make on reply varbind \<open>i\<close> against the OID at position \<open>prevPos\<close> of \<open>source\<close> (the
  request in the first loop, the response in the second): the error it hands to the
  response callback, if any.  \<open>positiion\<close> is the source's spelling.
\<close>

definition sq :: string where
  "sq = [CHR 0x27]"

definition bulkSlotCheck ::
  "bool \<Rightarrow> bool \<Rightarrow> string \<Rightarrow> string \<Rightarrow> nat \<Rightarrow> varbind \<Rightarrow> nat \<Rightarrow> js_error option" where
  "bulkSlotCheck reportOidMismatchErrors backwardsGetNexts source prevOid prevPos vb i =
     (if isVarbindError vb then
        (if reportOidMismatchErrors \<and> prevOid \<noteq> oid vb
         then Some (ResponseInvalidError
                (''OID '' @ sq @ prevOid @ sq @ '' in '' @ source @ '' at position '' @ sq
                  @ decimal prevPos @ sq @ '' does not match OID '' @ sq @ oid vb @ sq
                  @ '' in response at position '' @ sq @ decimal i @ sq) EReqResOidNoMatch)
         else None)
      else
        (if \<not> backwardsGetNexts \<and> \<not> oidFollowsOid prevOid (oid vb)
         then Some (ResponseInvalidError
                (''OID '' @ sq @ prevOid @ sq @ '' in '' @ source @ '' at positiion '' @ sq
                  @ decimal prevPos @ sq @ '' does not precede OID '' @ sq @ oid vb @ sq
                  @ '' in response at position '' @ sq @ decimal i @ sq) EOutOfOrder)
         else None))"

text \<open>
  The first loop, over the request and the reply in step from index \<open>i\<close>: it ends with
  the array built so far and the index reached, or with the error delivered.
\<close>

fun firstRound ::
  "bool \<Rightarrow> bool \<Rightarrow> int \<Rightarrow> nat \<Rightarrow> varbind list \<Rightarrow> varbind list \<Rightarrow> result_entry list
     \<Rightarrow> js_error + (result_entry list \<times> nat)" where
  "firstRound rep bgn nonRepeaters i (rq # rqs) (vb # vbs) acc =
     (case bulkSlotCheck rep bgn ''request'' (oid rq) i vb i of
        Some e \<Rightarrow> Inl e
      | None \<Rightarrow>
          firstRound rep bgn nonRepeaters (i + 1) rqs vbs
            (acc @ [if int i < nonRepeaters then Single vb else Bucket [vb]]))"
| "firstRound rep bgn nonRepeaters i rqs vbs acc = Inr (acc, i)"

text \<open>
  \<^verbatim>\<open>a % b\<close> on integers: NaN for \<open>b = 0\<close>, else the remainder with the sign of \<open>a\<close>.
\<close>

definition jsRemainder :: "int \<Rightarrow> int \<Rightarrow> int option" where
  "jsRemainder a b = (if b = 0 then None else Some (sgn a * (\<bar>a\<bar> mod \<bar>b\<bar>)))"

text \<open>
  The second loop, over the rest \<open>vbs\<close> of the reply from index \<open>i\<close>.  Reading
  \<^verbatim>\<open>.oid\<close> of a reply varbind that is not there, and \<^verbatim>\<open>.push\<close> on an entry that is not
  there or is not a list, throw a TypeError.
\<close>

fun laterRounds ::
  "bool \<Rightarrow> bool \<Rightarrow> int \<Rightarrow> int \<Rightarrow> varbind list \<Rightarrow> nat \<Rightarrow> varbind list \<Rightarrow> result_entry list
     \<Rightarrow> js_error + outcome" where
  "laterRounds rep bgn nonRepeaters repeaters reply i [] acc = Inr (Success acc)"
| "laterRounds rep bgn nonRepeaters repeaters reply i (vb # vbs) acc =
     (let prevIndex = int i - repeaters in
      if prevIndex < 0 \<or> prevIndex \<ge> int (length reply)
      then Inl (TypeError ''Cannot read properties of undefined'')
      else
        (case bulkSlotCheck rep bgn ''response'' (oid (reply ! nat prevIndex)) (nat prevIndex) vb i of
           Some e \<Rightarrow> Inr (Failure e)
         | None \<Rightarrow>
             (case jsRemainder (int i - nonRepeaters) repeaters of
                None \<Rightarrow> Inl (TypeError ''Cannot read properties of undefined'')
              | Some m \<Rightarrow>
                  (let reqIndex = m + nonRepeaters in
                   if reqIndex < 0 \<or> reqIndex \<ge> int (length acc)
                   then Inl (TypeError ''Cannot read properties of undefined'')
                   else
                     (case acc ! nat reqIndex of
                        Bucket b \<Rightarrow>
                          laterRounds rep bgn nonRepeaters repeaters reply (i + 1) vbs
                            (acc[nat reqIndex := Bucket (b @ [vb])])
                      | Single v \<Rightarrow> Inl (TypeError ''push is not a function''))))))"

definition getBulkFeedCb :: "bool \<Rightarrow> bool \<Rightarrow> int \<Rightarrow> message \<Rightarrow> message \<Rightarrow> js_error + outcome" where
  "getBulkFeedCb reportOidMismatchErrors backwardsGetNexts nonRepeaters reqMessage replyMessage =
     (let reqVarbinds = pvarbinds (mpdu reqMessage);
          reply = pvarbinds (mpdu replyMessage)
      in case firstRound reportOidMismatchErrors backwardsGetNexts nonRepeaters 0 reqVarbinds reply [] of
           Inl e \<Rightarrow> Inr (Failure e)
         | Inr (acc, i) \<Rightarrow>
             laterRounds reportOidMismatchErrors backwardsGetNexts nonRepeaters
               (int (length reqVarbinds) - nonRepeaters) reply i (drop i reply) acc)"

text \<open>
  The shape of a GetBulk result in the words of the specification: with \<open>nr\<close>
  non-repeaters and \<open>rp\<close> repeaters, the reply varbind at index \<open>k \<ge> nr\<close> belongs to
  repeater \<open>(k - nr) mod rp\<close>.  \<open>bucketUpTo\<close> collects, in order, the varbinds of one
  repeater among the first \<open>n\<close> of the reply; \<open>passesChecks\<close> says that every reply
  varbind passes the check of its slot.
\<close>

definition bucketUpTo :: "nat \<Rightarrow> nat \<Rightarrow> varbind list \<Rightarrow> nat \<Rightarrow> nat \<Rightarrow> varbind list" where
  "bucketUpTo nr rp reply n j =
     map (\<lambda>k. reply ! k) (filter (\<lambda>k. nr \<le> k \<and> (k - nr) mod rp = j) [0..<n])"

definition bulkShape :: "nat \<Rightarrow> nat \<Rightarrow> varbind list \<Rightarrow> result_entry list" where
  "bulkShape nr rp reply =
     map Single (take nr reply)
     @ map (\<lambda>j. Bucket (bucketUpTo nr rp reply (length reply) j)) [0..<min rp (length reply - nr)]"

definition passesChecks :: "bool \<Rightarrow> bool \<Rightarrow> nat \<Rightarrow> varbind list \<Rightarrow> varbind list \<Rightarrow> bool" where
  "passesChecks rep bgn rp reqVarbinds reply \<longleftrightarrow>
     (\<forall>i \<in> set [0..<length reply].
        if i < length reqVarbinds
        then bulkSlotCheck rep bgn ''request'' (oid (reqVarbinds ! i)) i (reply ! i) i = None
        else bulkSlotCheck rep bgn ''response'' (oid (reply ! (i - rp))) (i - rp) (reply ! i) i = None)"

text \<open>The request and the reply of the specification's example, by name.\<close>

definition named :: "string \<Rightarrow> varbind" where
  "named n = \<lparr> oid = n, vtype = 4, vvalue = Str n \<rparr>"

definition bulk_message :: "varbind list \<Rightarrow> message" where
  "bulk_message vbs = demo_message\<lparr>mpdu := \<lparr> ptype = 162, pvarbinds = vbs,
        errorStatus = 0, errorIndex = 0, contextName = [] \<rparr>\<rparr>"


text \<open>
  What the first loop appends for the reply varbinds from index \<open>i\<close> on, and the shape of
  the result once the first \<open>n\<close> reply varbinds have been placed.
\<close>

fun openEntries :: "nat \<Rightarrow> nat \<Rightarrow> varbind list \<Rightarrow> result_entry list" where
  "openEntries nr i [] = []"
| "openEntries nr i (vb # vbs) =
     (if i < nr then Single vb else Bucket [vb]) # openEntries nr (Suc i) vbs"

definition shapeAt :: "nat \<Rightarrow> nat \<Rightarrow> varbind list \<Rightarrow> nat \<Rightarrow> result_entry list" where
  "shapeAt nr rp reply n =
     map Single (take nr (take n reply))
     @ map (\<lambda>j. Bucket (bucketUpTo nr rp reply n j)) [0..<min rp (n - nr)]"


text \<open>
  The shape with a list for every one of the \<open>rp\<close> repeaters, whatever the length of the
  reply.
\<close>

definition fullBulkShape :: "nat \<Rightarrow> nat \<Rightarrow> varbind list \<Rightarrow> result_entry list" where
  "fullBulkShape nr rp reply =
     map Single (take nr reply)
     @ map (\<lambda>j. Bucket (bucketUpTo nr rp reply (length reply) j)) [0..<rp]"


section \<open>Subtree walks\<close>

text \<open>
  \<^verbatim>\<open>subtreeCb\<close>.  The loop counts \<open>i\<close> down from the length of the batch; it tests
  \<^verbatim>\<open>varbinds[i - 1]\<close> and, when that one is outside the subtree, removes the last element
  (\<^verbatim>\<open>pop\<close>).  The caller's feed callback answers whether to stop.  The result is the batch
  handed to the caller's feed callback, if any, and whether \<^verbatim>\<open>subtreeCb\<close> returns true.
\<close>

fun subtreeLoop :: "string \<Rightarrow> nat \<Rightarrow> varbind list \<Rightarrow> bool \<Rightarrow> js_error + (varbind list \<times> bool)" where
  "subtreeLoop baseOid 0 varbinds done = Inr (varbinds, done)"
| "subtreeLoop baseOid (Suc k) varbinds done =
     (if k \<ge> length varbinds then Inl (TypeError ''Cannot read properties of undefined'')
      else if \<not> oidInSubtree baseOid (oid (varbinds ! k))
      then subtreeLoop baseOid k (butlast varbinds) True
      else subtreeLoop baseOid k varbinds done)"

definition subtreeCb ::
  "string \<Rightarrow> (varbind list \<Rightarrow> bool) \<Rightarrow> varbind list \<Rightarrow> js_error + (varbind list option \<times> bool)" where
  "subtreeCb baseOid feed varbinds =
     (case subtreeLoop baseOid (length varbinds) varbinds False of
        Inl e \<Rightarrow> Inl e
      | Inr (kept, done) \<Rightarrow>
          if length kept > 0 then Inr (Some kept, (if feed kept then True else done))
          else Inr (None, done))"

section \<open>object-parser: 64-bit values\<close>

text \<open>
  \<^verbatim>\<open>Buffer.readInt32BE\<close>: four bytes from the offset, big-endian, two's complement; a
  RangeError when they are not all inside the buffer.  \<open>beValue\<close> is the big-endian
  unsigned value of a byte string.
\<close>

definition beValue :: "byte list \<Rightarrow> int" where
  "beValue bs = foldl (\<lambda>n b. n * 256 + uint b) 0 bs"

definition readInt32BE :: "byte list \<Rightarrow> int \<Rightarrow> js_error + int" where
  "readInt32BE buffer offset =
     (if offset < 0 \<or> offset + 4 > int (length buffer) then Inl (RangeError ''ERR_OUT_OF_RANGE'')
      else (let u = beValue (take 4 (drop (nat offset) buffer))
            in Inr (if u \<ge> 2147483648 then u - 4294967296 else u)))"

function padTo8 :: "byte list \<Rightarrow> byte list" where
  "padTo8 buffer = (if length buffer < 8 then padTo8 (0 # buffer) else buffer)"
  by pat_completeness auto
termination
  by (relation "measure (\<lambda>b. 8 - length b)") auto

declare padTo8.simps [simp del]

definition readInt64BEasFloat :: "byte list \<Rightarrow> int \<Rightarrow> js_error + int" where
  "readInt64BEasFloat buffer offset =
     (let b = padTo8 buffer in
      case readInt32BE b (offset + 4) of
        Inl e \<Rightarrow> Inl e
      | Inr low \<Rightarrow>
          (case readInt32BE b offset of
             Inl e \<Rightarrow> Inl e
           | Inr high \<Rightarrow>
               (let n = fl (fl (high * 4294967296) + low)
                in Inr (if low < 0 then fl (n + 4294967296) else n))))"


text \<open>
  Dotted-decimal OIDs in the words of the specification: the components are the pieces
  between the dots, each a number written in decimal digits; \<open>b\<close> follows \<open>a\<close> when, at
  the first place where they differ, the component of \<open>b\<close> is the larger one, or when
  either runs out first.  A component below \<open>2^53\<close> is exact as a double (an SNMP
  sub-identifier is below \<open>2^32\<close>).
\<close>

definition isDigit :: "char \<Rightarrow> bool" where
  "isDigit c \<longleftrightarrow> 48 \<le> (of_char c :: nat) \<and> (of_char c :: nat) \<le> 57"

definition decimalValue :: "string \<Rightarrow> nat" where
  "decimalValue p = foldl (\<lambda>n c. n * 10 + (of_char c - 48)) 0 p"

definition components :: "string \<Rightarrow> nat list" where
  "components s = map decimalValue (splitDot s)"

definition wellFormedOid :: "string \<Rightarrow> bool" where
  "wellFormedOid s \<longleftrightarrow>
     list_all (\<lambda>p. p \<noteq> [] \<and> list_all isDigit p \<and> decimalValue p < 2 ^ 53) (splitDot s)"

fun followsSpec :: "nat list \<Rightarrow> nat list \<Rightarrow> bool" where
  "followsSpec [] bs = True"
| "followsSpec (a # as) [] = True"
| "followsSpec (a # as) (b # bs) =
     (if b > a then True else if b < a then False else followsSpec as bs)"

text \<open>The number that the loop of \<^verbatim>\<open>getNumber\<close> has after the characters \<open>p\<close>.\<close>

definition accumulate :: "int \<Rightarrow> string \<Rightarrow> int" where
  "accumulate n p =
     foldl (\<lambda>n c. fl (fl (if n \<noteq> 0 then n * 10 else n) + (of_char c - 48))) n p"


section \<open>Tables\<close>


















text \<open>A string of digits and dots, as the OID of a decoded varbind is.\<close>

definition dottedDecimal :: "string \<Rightarrow> bool" where
  "dottedDecimal s \<longleftrightarrow> list_all (\<lambda>c. isDigit c \<or> c = CHR ''.'') s"

section \<open>Properties\<close>

lemma uint32_range: "0 \<le> uint (w :: 32 word) \<and> uint w \<le> 4294967295"
proof -
  have "uint w < 2 ^ 32" using uint_bounded [of w] by simp
  then show ?thesis by simp
qed

text \<open>
  C10.  \<^verbatim>\<open>readUint32\<close> never raises its "out of 32-bit unsigned range" RangeError:
  whenever the inner \<^verbatim>\<open>readInt\<close> yields an integer \<open>n\<close>, the result is \<open>n\<close> reduced
  modulo \<open>2^32\<close>, which lies between 0 and 4294967295; the only errors that come out are
  the reader's own and the TypeError for a non-integer.
\<close>

theorem readUint32_never_range_error:
  "readUint32 readInt buffer \<noteq> Inl (RangeError ''Value read as integer out of 32-bit unsigned range'')
   \<and> readUint32 (\<lambda>_. Inr (JInt n)) buffer = Inr (n mod 2 ^ 32)
   \<and> 0 \<le> n mod 2 ^ 32 \<and> n mod 2 ^ 32 \<le> (4294967295 :: int)"
proof -
  have a: "readUint32 (\<lambda>_. Inr (JInt n)) buffer = Inr (n mod 2 ^ 32)"
    using uint32_range [of "word_of_int n"]
    by (simp add: readUint32_def Let_def uint_word_of_int)
  have b: "0 \<le> n mod 2 ^ 32 \<and> n mod 2 ^ 32 \<le> (4294967295 :: int)"
    using uint32_range [of "word_of_int n"] by (simp add: uint_word_of_int)
  have c: "readUint32 readInt buffer \<noteq> Inl (RangeError ''Value read as integer out of 32-bit unsigned range'')"
  proof (cases "readInt buffer")
    case (Inl e)
    then show ?thesis by (simp add: readUint32_def)
  next
    case (Inr v)
    show ?thesis
    proof (cases v)
      case (JInt k)
      with Inr show ?thesis
        using uint32_range [of "word_of_int k"] by (simp add: readUint32_def Let_def)
    next
      case JNotInteger
      with Inr show ?thesis by (simp add: readUint32_def)
    qed
  qed
  from a b c show ?thesis by simp
qed

subsection \<open>The registry and the socket\<close>


lemma length_delete_present:
  "distinct (map fst al) \<Longrightarrow> map_of al i = Some r \<Longrightarrow> Suc (length (AList.delete i al)) = length al"
proof (induction al)
  case Nil then show ?case by simp
next
  case (Cons a al)
  show ?case
  proof (cases "fst a = i")
    case True
    with Cons.prems have "i \<notin> fst ` set al" by auto
    then have "AList.delete i al = al" by simp
    with True show ?thesis by (cases a) (simp add: AList.delete_eq)
  next
    case False
    with Cons show ?thesis by (cases a) (auto simp: AList.delete_eq)
  qed
qed

lemma registry_inv_new: "registry_inv (newSession ctx n p h k)"
  by (simp add: registry_inv_def newSession_def)

lemma registry_inv_register: "registry_inv s \<Longrightarrow> registry_inv (registerRequest r s)"
  by (auto simp: registry_inv_def registerRequest_def Let_def map_of_eq_None_iff)

lemma registry_inv_unregister: "registry_inv s \<Longrightarrow> registry_inv (fst (unregisterRequest i s))"
proof (cases "map_of (reqs s) i")
  case None
  assume "registry_inv s"
  with None show ?thesis by (simp add: unregisterRequest_def)
next
  case (Some r)
  assume inv: "registry_inv s"
  then have d: "distinct (map fst (reqs s))" and c: "reqCount s = int (length (reqs s))"
    and g: "dgramRef s = (0 < reqCount s)"
    by (simp_all add: registry_inv_def)
  from length_delete_present [OF d Some]
  have l: "int (length (reqs s)) = int (length (AList.delete i (reqs s))) + 1" by simp
  from d have d': "distinct (map fst (AList.delete i (reqs s)))" by (rule AList.distinct_delete)
  show ?thesis using Some c l d' g
    by (simp add: registry_inv_def unregisterRequest_def Let_def clearTimeout_def split: option.split)
qed

lemma registry_inv_calls: "registry_inv s \<Longrightarrow> registry_inv (registry_calls cs s)"
  unfolding registry_calls_def
proof (induction cs arbitrary: s)
  case Nil then show ?case by simp
next
  case (Cons c cs)
  then show ?case
    by (cases c) (simp_all add: registry_inv_register registry_inv_unregister)
qed


text \<open>
  C3.  After any sequence of \<^verbatim>\<open>registerRequest\<close> and \<^verbatim>\<open>unregisterRequest\<close> calls on a
  fresh session, the socket is ref'd exactly when the outstanding count is positive, and
  the count is the number of registered requests; \<^verbatim>\<open>registerRequest\<close> refs the socket
  when the count goes from 0 to 1 and \<^verbatim>\<open>unregisterRequest\<close> unrefs it when the count
  comes back to 0.
\<close>

theorem transport_ref_iff_outstanding:
  "(let s = registry_calls cs (newSession ctx n p h k)
    in dgramRef s = (0 < reqCount s)
       \<and> reqCount s = int (length (reqs s))
       \<and> (reqCount s = 0 \<longrightarrow>
            dgramRef (registerRequest r s) \<and> reqCount (registerRequest r s) = 1)
       \<and> (reqCount s = 1 \<and> map_of (reqs s) i \<noteq> None \<longrightarrow>
            \<not> dgramRef (fst (unregisterRequest i s))
            \<and> reqCount (fst (unregisterRequest i s)) = 0))"
proof -
  define s where "s = registry_calls cs (newSession ctx n p h k)"
  have inv: "registry_inv s"
    unfolding s_def by (rule registry_inv_calls [OF registry_inv_new])
  then have a: "dgramRef s = (0 < reqCount s)" and b: "reqCount s = int (length (reqs s))"
    by (simp_all add: registry_inv_def)
  have c: "reqCount s = 0 \<longrightarrow>
            dgramRef (registerRequest r s) \<and> reqCount (registerRequest r s) = 1"
  proof
    assume z: "reqCount s = 0"
    with b have "reqs s = []" by simp
    with z show "dgramRef (registerRequest r s) \<and> reqCount (registerRequest r s) = 1"
      by (simp add: registerRequest_def Let_def)
  qed
  have d: "reqCount s = 1 \<and> map_of (reqs s) i \<noteq> None \<longrightarrow>
            \<not> dgramRef (fst (unregisterRequest i s))
            \<and> reqCount (fst (unregisterRequest i s)) = 0"
  proof
    assume h: "reqCount s = 1 \<and> map_of (reqs s) i \<noteq> None"
    then obtain q where "map_of (reqs s) i = Some q" by auto
    with h show "\<not> dgramRef (fst (unregisterRequest i s))
            \<and> reqCount (fst (unregisterRequest i s)) = 0"
      by (simp add: unregisterRequest_def Let_def clearTimeout_def split: option.split)
  qed
  from a b c d show ?thesis unfolding s_def [symmetric] Let_def by blast
qed

theorem transport_ref_iff_outstanding_witness:
  "dgramRef (registerRequest 0 (registry_calls [] (newSession [] 1 161 (\<lambda>_. demo_req) 1)))
   \<and> \<not> dgramRef (fst (unregisterRequest 7
         (registry_calls [RegisterRequest 0] (newSession [] 1 161 (\<lambda>_. demo_req) 1))))"
proof -
  have a: "reqCount (registry_calls [] (newSession [] 1 161 (\<lambda>_. demo_req) 1)) = 0"
    by (simp add: registry_calls_def newSession_def)
  have b: "reqCount (registry_calls [RegisterRequest 0] (newSession [] 1 161 (\<lambda>_. demo_req) 1)) = 1
     \<and> map_of (reqs (registry_calls [RegisterRequest 0] (newSession [] 1 161 (\<lambda>_. demo_req) 1))) 7 \<noteq> None"
    by (simp add: registry_calls_def newSession_def registerRequest_def Let_def getId_def
        demo_req_def demo_message_def)
  from a b
    transport_ref_iff_outstanding [of "[]" "[]" 1 161 "\<lambda>_. demo_req" 1 0 7]
    transport_ref_iff_outstanding [of "[RegisterRequest 0]" "[]" 1 161 "\<lambda>_. demo_req" 1 0 7]
  show ?thesis unfolding Let_def by blast
qed

subsection \<open>Timeouts\<close>


lemma map_of_delete_same: "map_of (AList.delete i al) i = None"
  using AList.delete_notin_dom [of i al] by (simp add: map_of_eq_None_iff)

text \<open>
  C4.  When the timer of a registered request fires: with no retries left, one
  RequestTimedOutError goes to its response callback, nothing is sent, and the request
  is removed from the registry (which is empty afterwards if it held only this request);
  with retries left, the counter goes down by one and the stored message is handed to the
  socket again under the same request, with no callback invoked and the registry unchanged.
  The stored message is one that encodes, as it did when it was first sent.
\<close>

theorem timer_fire_outcome:
  assumes "map_of (timers s) h = Some r"
    and "map_of (reqs s) (getId (heap s r)) = Some r"
  shows "(retries (heap s r) \<le> 0 \<longrightarrow>
            callbacks (timerFire h s) =
              callbacks s @ [(responseCb (heap s r), Failure (RequestTimedOutError ''Request timed out''))]
            \<and> map_of (reqs (timerFire h s)) (getId (heap s r)) = None
            \<and> sending (timerFire h s) = sending s
            \<and> (reqs s = [(getId (heap s r), r)] \<longrightarrow> reqs (timerFire h s) = []))
       \<and> (0 < retries (heap s r) \<and> wire (rmessage (heap s r)) = Some buffer \<longrightarrow>
            retries (heap (timerFire h s) r) = retries (heap s r) - 1
            \<and> sending (timerFire h s) = sending s @ [(r, False, buffer)]
            \<and> rmessage (heap (timerFire h s) r) = rmessage (heap s r)
            \<and> callbacks (timerFire h s) = callbacks s
            \<and> reqs (timerFire h s) = reqs s)"
proof (intro conjI impI)
  assume z: "retries (heap s r) \<le> 0"
  with assms show "callbacks (timerFire h s) =
      callbacks s @ [(responseCb (heap s r), Failure (RequestTimedOutError ''Request timed out''))]"
    by (simp add: timerFire_def Let_def unregisterRequest_def getId_def deliver_def clearTimeout_def
        split: option.split)
  from z assms show "map_of (reqs (timerFire h s)) (getId (heap s r)) = None"
    by (simp add: timerFire_def Let_def unregisterRequest_def getId_def deliver_def clearTimeout_def
        map_of_delete_same split: option.split)
  from z assms show "sending (timerFire h s) = sending s"
    by (simp add: timerFire_def Let_def unregisterRequest_def getId_def deliver_def clearTimeout_def
        split: option.split)
  assume "reqs s = [(getId (heap s r), r)]"
  with z assms show "reqs (timerFire h s) = []"
    by (simp add: timerFire_def Let_def unregisterRequest_def getId_def deliver_def clearTimeout_def
        AList.delete_eq split: option.split)
next
  assume p: "0 < retries (heap s r) \<and> wire (rmessage (heap s r)) = Some buffer"
  with assms show "retries (heap (timerFire h s) r) = retries (heap s r) - 1"
    by (simp add: timerFire_def Let_def send_def)
  from p assms show "sending (timerFire h s) = sending s @ [(r, False, buffer)]"
    by (simp add: timerFire_def Let_def send_def)
  from p assms show "rmessage (heap (timerFire h s) r) = rmessage (heap s r)"
    by (simp add: timerFire_def Let_def send_def)
  from p assms show "callbacks (timerFire h s) = callbacks s"
    by (simp add: timerFire_def Let_def send_def)
  from p assms show "reqs (timerFire h s) = reqs s"
    by (simp add: timerFire_def Let_def send_def)
qed

lemma armed_eval:
  "map_of (timers (armed n)) 0 = Some 0" "heap (armed n) 0 = demo_req\<lparr>retries := n, timer := Some 0\<rparr>"
  "reqs (armed n) = [(7, 0)]" "callbacks (armed n) = []" "sending (armed n) = []"
  by (simp_all add: armed_def registerRequest_def newSession_def Let_def getId_def demo_req_def demo_message_def)

theorem timer_fire_outcome_witness:
  "callbacks (timerFire 0 (armed 0)) = [(0, Failure (RequestTimedOutError ''Request timed out''))]
   \<and> reqs (timerFire 0 (armed 0)) = []
   \<and> retries (heap (timerFire 0 (armed 1)) 0) = 0
   \<and> sending (timerFire 0 (armed 1)) = [(0, False, [48, 0])]
   \<and> callbacks (timerFire 0 (armed 1)) = []"
proof -
  have a: "map_of (reqs (armed n)) (getId (heap (armed n) 0)) = Some 0" for n
    by (simp add: armed_eval getId_def demo_req_def demo_message_def)
  have b: "wire (rmessage (heap (armed 1) 0)) = Some [48, 0]"
    by (simp add: armed_eval demo_req_def demo_message_def)
  have c: "getId (heap (armed n) 0) = 7" "responseCb (heap (armed n) 0) = 0"
     "retries (heap (armed n) 0) = n" for n
    by (simp_all add: armed_eval getId_def demo_req_def demo_message_def)
  from timer_fire_outcome [OF armed_eval(1) a, of 0 "[48, 0]"]
       timer_fire_outcome [OF armed_eval(1) a, of 1 "[48, 0]"] b
  show ?thesis by (simp add: armed_eval getId_def demo_req_def demo_message_def)
qed

subsection \<open>Outcomes per request\<close>

text \<open>
  C2.  One request can get two outcomes.  The request with id 7 is sent, registered, and
  its timer fires with a retry left, so it is sent again while it stays registered.  In
  the first run the socket reports an error for the second send: the error goes to the
  response callback with the request still in the registry, and the reply that arrives
  afterwards is delivered as well.  In the second run the reply arrives before the second
  send completes: the reply is delivered, the completion registers the request again, and
  its new timer delivers a timeout.
\<close>

theorem one_request_two_outcomes:
  "callbacks (run cr [SendCompletes None, TimerFires 0, SendCompletes (Some ''EHOSTUNREACH''),
                      Datagram (Some demo_reply)] demo_start)
     = [(0, Failure (LibraryError ''EHOSTUNREACH'')),
        (0, Success [Single \<lparr> oid = ''1.3.6.1.2.1.1.3.0'', vtype = 67, vvalue = Num 42 \<rparr>])]
   \<and> callbacks (run cr [SendCompletes None, TimerFires 0, Datagram (Some demo_reply),
                      SendCompletes None, TimerFires 1] demo_start)
     = [(0, Success [Single \<lparr> oid = ''1.3.6.1.2.1.1.3.0'', vtype = 67, vvalue = Num 42 \<rparr>]),
        (0, Failure (RequestTimedOutError ''Request timed out''))]"
  by (simp add: run_def demo_start_def send_def newSession_def demo_req_def demo_message_def
      demo_reply_def sendDone_def registerRequest_def getId_def Let_def timerFire_def deliver_def
      onMsg_def unregisterRequest_def clearTimeout_def AList.delete_eq onSimpleGetResponse_def
      GetResponse_def Report_def)

subsection \<open>Report PDUs\<close>


lemma splitDot_nonempty: "splitDot s \<noteq> []"
  by (induction s) (auto split: list.split)

lemma splitDot_append_dot: "splitDot (a @ CHR ''.'' # t) = splitDot a @ splitDot t"
proof (induction a)
  case Nil show ?case by simp
next
  case (Cons c a)
  obtain p ps where "splitDot a = p # ps"
    using splitDot_nonempty [of a] by (cases "splitDot a") auto
  with Cons show ?case by simp
qed

lemma componentsMatch_append: "componentsMatch xs (xs @ ys)"
  by (induction xs) auto

lemma oidInSubtree_below: "oidInSubtree b (b @ CHR ''.'' # t)"
  by (simp add: oidInSubtree_def Let_def splitDot_append_dot componentsMatch_append)

lemma startsWith_append: "startsWith s p \<Longrightarrow> \<exists>t. s = p @ t"
  unfolding startsWith_def by (metis append_take_drop_id)

lemma not_in_subtree_not_below:
  assumes "\<not> oidInSubtree b s" shows "\<not> startsWith s (b @ ''.'')"
proof
  assume "startsWith s (b @ ''.'')"
  then obtain t where "s = (b @ ''.'') @ t" using startsWith_append by blast
  then have "s = b @ CHR ''.'' # t" by simp
  with assms oidInSubtree_below show False by simp
qed

lemma stripDotZero_keeps_two:
  "c \<noteq> CHR ''0'' \<Longrightarrow> \<exists>x. stripDotZero (a # b # c # w) = a # b # x"
  by (cases w) (auto simp: stripDotZero_def take_Cons')

lemma removeFirst_usm_other:
  assumes "startsWith s UsmStatsBase" and "\<not> startsWith s (UsmStatsBase @ ''.'')"
  shows "\<exists>w. removeFirst (UsmStatsBase @ ''.'') s = CHR ''1'' # CHR ''.'' # CHR ''3'' # w"
proof -
  define p where "p = UsmStatsBase @ ''.''"
  from assms(1) obtain t where s: "s = UsmStatsBase @ t" using startsWith_append by blast
  then obtain u where u: "s = CHR ''1'' # CHR ''.'' # CHR ''3'' # u"
    by (simp add: UsmStatsBase_def)
  from assms(2) have n: "take (length p) (CHR ''1'' # CHR ''.'' # CHR ''3'' # u) \<noteq> p"
    by (simp add: startsWith_def p_def u)
  have hd: "p = CHR ''1'' # tl p" by (simp add: p_def UsmStatsBase_def)
  have 1: "removeFirst p s = CHR ''1'' # removeFirst p (CHR ''.'' # CHR ''3'' # u)"
    unfolding u using n by simp
  have "take (length p) (CHR ''.'' # CHR ''3'' # u) \<noteq> p"
    by (subst (2) hd, subst hd) simp
  then have 2: "removeFirst p (CHR ''.'' # CHR ''3'' # u) = CHR ''.'' # removeFirst p (CHR ''3'' # u)"
    by simp
  have "take (length p) (CHR ''3'' # u) \<noteq> p"
    by (subst (2) hd, subst hd) simp
  then have 3: "removeFirst p (CHR ''3'' # u) = CHR ''3'' # removeFirst p u"
    by simp
  from 1 2 3 show ?thesis unfolding p_def by simp
qed

lemma usm_suffix_unnamed:
  assumes "startsWith s UsmStatsBase" and "\<not> startsWith s (UsmStatsBase @ ''.'')"
  shows "UsmStats (stripDotZero (removeFirst (UsmStatsBase @ ''.'') s)) = None"
proof -
  from removeFirst_usm_other [OF assms] obtain w
    where "removeFirst (UsmStatsBase @ ''.'') s = CHR ''1'' # CHR ''.'' # CHR ''3'' # w" by blast
  moreover obtain x where "stripDotZero (CHR ''1'' # CHR ''.'' # CHR ''3'' # w) = CHR ''1'' # CHR ''.'' # x"
    using stripDotZero_keeps_two [of "CHR ''3''" "CHR ''1''" "CHR ''.''" w] by auto
  ultimately show ?thesis by (simp add: UsmStats_def)
qed

lemma removeFirst_prefix: "p \<noteq> [] \<Longrightarrow> removeFirst p (p @ t) = t"
  by (cases p) simp_all

lemma usm_suffix_named:
  assumes "k \<in> set usmStatsKeys"
  shows "stripDotZero (removeFirst (UsmStatsBase @ ''.'') (UsmStatsBase @ ''.'' @ k @ ''.0'')) = k"
    and "stripDotZero (removeFirst (UsmStatsBase @ ''.'') (UsmStatsBase @ ''.'' @ k)) = k"
proof -
  have a: "removeFirst (UsmStatsBase @ ''.'') (UsmStatsBase @ ''.'' @ t) = t" for t
    using removeFirst_prefix [of "UsmStatsBase @ ''.''" t] by simp
  from assms show "stripDotZero (removeFirst (UsmStatsBase @ ''.'') (UsmStatsBase @ ''.'' @ k @ ''.0'')) = k"
    unfolding a by (auto simp: usmStatsKeys_def stripDotZero_def)
  from assms show "stripDotZero (removeFirst (UsmStatsBase @ ''.'') (UsmStatsBase @ ''.'' @ k)) = k"
    unfolding a by (auto simp: usmStatsKeys_def stripDotZero_def)
qed

lemma startsWith_usm_named: "startsWith (UsmStatsBase @ t) UsmStatsBase"
  by (simp add: startsWith_def)


lemma unregister_present:
  assumes "map_of (reqs s) i = Some r"
  shows "snd (unregisterRequest i s) = Some r"
    and "callbacks (fst (unregisterRequest i s)) = callbacks s"
    and "proxy (fst (unregisterRequest i s)) = proxy s"
    and "sending (fst (unregisterRequest i s)) = sending s"
    and "nextRef (fst (unregisterRequest i s)) = nextRef s"
    and "sessionContext (fst (unregisterRequest i s)) = sessionContext s"
    and "sretries (fst (unregisterRequest i s)) = sretries s"
    and "heap (fst (unregisterRequest i s)) r = (heap s r)\<lparr>timer := None\<rparr>"
  using assms
  by (simp_all add: unregisterRequest_def Let_def clearTimeout_def split: option.split)

lemma onMsg_report:
  assumes "map_of (reqs s) (reqId m) = Some r"
    and "securityFailure m = None"
    and "version m = version (rmessage (heap s r))"
    and "community m = community (rmessage (heap s r))"
    and "ptype (mpdu m) = Report"
  shows "onMsg cr (Some m) s = onReport cr r m (fst (unregisterRequest (reqId m) s))"
proof -
  obtain s1 where u: "unregisterRequest (reqId m) s = (s1, Some r)"
    using unregister_present(1) [OF assms(1)] by (cases "unregisterRequest (reqId m) s") auto
  then have h: "heap s1 r = (heap s r)\<lparr>timer := None\<rparr>"
    using unregister_present(8) [OF assms(1)] by simp
  show ?thesis using assms(2-5) by (simp add: onMsg_def u h Let_def)
qed

lemma refused_named:
  assumes "pvarbinds (mpdu m) = vb # rest" and "k \<in> set usmStatsKeys"
    and "oid vb = UsmStatsBase @ ''.'' @ k @ ''.0'' \<or> oid vb = UsmStatsBase @ ''.'' @ k"
    and "UsmStats k = Some name"
  shows "reportRefused r m s = deliver r (Failure (ResponseInvalidError name EAuthFailure)) s"
proof -
  have sw: "startsWith (oid vb) UsmStatsBase"
    using assms(3) startsWith_usm_named by auto
  have "stripDotZero (removeFirst (UsmStatsBase @ ''.'') (oid vb)) = k"
    using assms(3) usm_suffix_named [OF assms(2)] by auto
  with sw assms(1,4) show ?thesis
    by (simp add: reportRefused_def userSecurityModelError_def Let_def)
qed

lemma refused_outside:
  assumes "pvarbinds (mpdu m) = vb # rest" and "\<not> oidInSubtree UsmStatsBase (oid vb)"
  shows "\<exists>code. reportRefused r m s
           = deliver r (Failure (ResponseInvalidError ''Unexpected Report PDU'' code)) s"
proof (cases "startsWith (oid vb) UsmStatsBase")
  case False
  with assms(1) show ?thesis by (auto simp: reportRefused_def)
next
  case True
  from usm_suffix_unnamed [OF True not_in_subtree_not_below [OF assms(2)]] True assms(1)
  show ?thesis
    by (auto simp: reportRefused_def userSecurityModelError_def Let_def)
qed

subsection \<open>GetBulk reassembly\<close>


lemma openEntries_split:
  "openEntries nr i xs = map Single (take (nr - i) xs) @ map (\<lambda>v. Bucket [v]) (drop (nr - i) xs)"
proof (induction xs arbitrary: i)
  case Nil show ?case by simp
next
  case (Cons x xs)
  show ?case
  proof (cases "i < nr")
    case True
    then obtain d where d: "nr - i = Suc d" "nr - Suc i = d" by (cases "nr - i") auto
    with True Cons [of "Suc i"] show ?thesis by simp
  next
    case False
    with Cons [of "Suc i"] show ?thesis by simp
  qed
qed

lemma firstRound_pass:
  assumes "\<forall>k < min (length rqs) (length vbs).
             bulkSlotCheck rep bgn ''request'' (oid (rqs ! k)) (i + k) (vbs ! k) (i + k) = None"
  shows "firstRound rep bgn (int nr) i rqs vbs acc
           = Inr (acc @ openEntries nr i (take (min (length rqs) (length vbs)) vbs),
                  i + min (length rqs) (length vbs))"
  using assms
proof (induction rqs arbitrary: vbs i acc)
  case Nil
  show ?case by (cases vbs) simp_all
next
  case (Cons rq rqs)
  show ?case
  proof (cases vbs)
    case Nil then show ?thesis by simp
  next
    case (Cons vb vbs')
    from Cons.prems [unfolded Cons] have h0: "bulkSlotCheck rep bgn ''request'' (oid rq) i vb i = None"
      by (auto dest: spec [of _ 0])
    have hs: "\<forall>k < min (length rqs) (length vbs').
        bulkSlotCheck rep bgn ''request'' (oid (rqs ! k)) (Suc i + k) (vbs' ! k) (Suc i + k) = None"
    proof (intro allI impI)
      fix k assume "k < min (length rqs) (length vbs')"
      then have "Suc k < min (length (rq # rqs)) (length vbs)" using Cons by simp
      from Cons.prems [rule_format, OF this] show
        "bulkSlotCheck rep bgn ''request'' (oid (rqs ! k)) (Suc i + k) (vbs' ! k) (Suc i + k) = None"
        using Cons by simp
    qed
    from Cons.IH [OF hs] h0 Cons show ?thesis by simp
  qed
qed

lemma filter_eq_upt: "j < n \<Longrightarrow> filter (\<lambda>t. t = j) [0..<n] = [j]"
proof (induction n)
  case 0 then show ?case by simp
next
  case (Suc n)
  show ?case
  proof (cases "j = n")
    case True
    have "filter (\<lambda>t. t = n) [0..<n] = []" by (simp add: filter_empty_conv)
    with True show ?thesis by simp
  next
    case False
    with Suc show ?thesis by simp
  qed
qed

lemma bucket_first_round:
  assumes "n \<le> nr + rp" and "nr + j < n"
  shows "bucketUpTo nr rp reply n j = [reply ! (nr + j)]"
proof -
  have "filter (\<lambda>k. nr \<le> k \<and> (k - nr) mod rp = j) [0..<n] = filter (\<lambda>k. k = nr + j) [0..<n]"
  proof (rule filter_cong [OF refl])
    fix k assume "k \<in> set [0..<n]"
    then have "k < nr + rp" using assms(1) by simp
    then show "(nr \<le> k \<and> (k - nr) mod rp = j) = (k = nr + j)" using assms by auto
  qed
  also have "\<dots> = [nr + j]" using filter_eq_upt [OF assms(2)] by simp
  finally show ?thesis by (simp add: bucketUpTo_def)
qed

lemma shapeAt_first_round:
  assumes "n \<le> nr + rp" and "n \<le> length reply"
  shows "openEntries nr 0 (take n reply) = shapeAt nr rp reply n"
proof -
  have "map (\<lambda>v. Bucket [v]) (drop nr (take n reply))
        = map (\<lambda>j. Bucket (bucketUpTo nr rp reply n j)) [0..<min rp (n - nr)]"
  proof (rule nth_equalityI)
    show "length (map (\<lambda>v. Bucket [v]) (drop nr (take n reply)))
        = length (map (\<lambda>j. Bucket (bucketUpTo nr rp reply n j)) [0..<min rp (n - nr)])"
      using assms by auto
  next
    fix j assume "j < length (map (\<lambda>v. Bucket [v]) (drop nr (take n reply)))"
    then have j: "nr + j < n" using assms by auto
    then have "j < min rp (n - nr)" using assms by auto
    with j assms show "map (\<lambda>v. Bucket [v]) (drop nr (take n reply)) ! j
        = map (\<lambda>j. Bucket (bucketUpTo nr rp reply n j)) [0..<min rp (n - nr)] ! j"
      by (simp add: bucket_first_round)
  qed
  then show ?thesis by (simp add: openEntries_split shapeAt_def)
qed

lemma bucket_Suc:
  "bucketUpTo nr rp reply (Suc i) j
     = bucketUpTo nr rp reply i j @ (if nr \<le> i \<and> (i - nr) mod rp = j then [reply ! i] else [])"
  by (simp add: bucketUpTo_def)

lemma shapeAt_Suc:
  assumes "nr + rp \<le> i" and "0 < rp" and "i < length reply"
  shows "shapeAt nr rp reply (Suc i)
     = (shapeAt nr rp reply i)[nr + (i - nr) mod rp :=
          Bucket (bucketUpTo nr rp reply i ((i - nr) mod rp) @ [reply ! i])]"
proof (rule nth_equalityI)
  show "length (shapeAt nr rp reply (Suc i)) = length ((shapeAt nr rp reply i)[nr + (i - nr) mod rp :=
          Bucket (bucketUpTo nr rp reply i ((i - nr) mod rp) @ [reply ! i])])"
    using assms by (simp add: shapeAt_def)
next
  fix k assume "k < length (shapeAt nr rp reply (Suc i))"
  then have k: "k < nr + rp" using assms by (simp add: shapeAt_def)
  have m: "(i - nr) mod rp < rp" using assms(2) by simp
  have len: "length (shapeAt nr rp reply i) = nr + rp" using assms by (simp add: shapeAt_def)
  show "shapeAt nr rp reply (Suc i) ! k = (shapeAt nr rp reply i)[nr + (i - nr) mod rp :=
          Bucket (bucketUpTo nr rp reply i ((i - nr) mod rp) @ [reply ! i])] ! k"
  proof (cases "k < nr")
    case True
    with assms show ?thesis by (simp add: shapeAt_def nth_append)
  next
    case False
    then obtain j where j: "k = nr + j" "j < rp" using k by (metis add_diff_inverse_nat nat_add_left_cancel_less)
    show ?thesis
    proof (cases "j = (i - nr) mod rp")
      case True
      with j assms len show ?thesis
        by (simp add: shapeAt_def nth_append bucket_Suc)
    next
      case False
      with j assms len show ?thesis
        by (auto simp: shapeAt_def nth_append bucket_Suc)
    qed
  qed
qed


lemma jsRemainder_slot:
  assumes "nr \<le> i" and "0 < rp" and "nr < i"
  shows "jsRemainder (int i - int nr) (int rp) = Some (int ((i - nr) mod rp))"
proof -
  have "int i - int nr = int (i - nr)" using assms by simp
  moreover have "sgn (int (i - nr)) = 1" using assms by simp
  ultimately show ?thesis using assms by (simp add: jsRemainder_def zmod_int)
qed

lemma shapeAt_bucket:
  assumes "nr + rp \<le> i" and "j < rp" and "i \<le> length reply"
  shows "shapeAt nr rp reply i ! (nr + j) = Bucket (bucketUpTo nr rp reply i j)"
    and "length (shapeAt nr rp reply i) = nr + rp"
  using assms by (simp_all add: shapeAt_def nth_append)

lemma laterRounds_step:
  assumes "nr + rp \<le> i" and "0 < rp" and "i < length reply"
    and "bulkSlotCheck rep bgn ''response'' (oid (reply ! (i - rp))) (i - rp) (reply ! i) i = None"
  shows "laterRounds rep bgn (int nr) (int rp) reply i (reply ! i # vbs) (shapeAt nr rp reply i)
       = laterRounds rep bgn (int nr) (int rp) reply (Suc i) vbs (shapeAt nr rp reply (Suc i))"
proof -
  define j where "j = (i - nr) mod rp"
  have j: "j < rp" using assms(2) by (simp add: j_def)
  have prev: "int i - int rp = int (i - rp)" "\<not> length reply \<le> i - rp"
    using assms by simp_all
  have le: "i \<le> length reply" using assms(3) by simp
  have rem: "jsRemainder (int i - int nr) (int rp) = Some (int j)"
    unfolding j_def using assms by (intro jsRemainder_slot) simp_all
  have len: "length (shapeAt nr rp reply i) = nr + rp"
    by (rule shapeAt_bucket(2) [OF assms(1) j le])
  have idx: "nat (int j + int nr) = nr + j" by simp
  have inr: "\<not> int j + int nr < 0" "\<not> int (nr + rp) \<le> int j + int nr"
    using j by simp_all
  have at: "shapeAt nr rp reply i ! (nr + j) = Bucket (bucketUpTo nr rp reply i j)"
    by (rule shapeAt_bucket(1) [OF assms(1) j le])
  have upd: "(shapeAt nr rp reply i)[nr + j := Bucket (bucketUpTo nr rp reply i j @ [reply ! i])]
      = shapeAt nr rp reply (Suc i)"
    unfolding j_def by (rule shapeAt_Suc [OF assms(1-3), symmetric])
  show ?thesis
    by (simp add: Let_def prev assms(4) rem inr idx at upd len del: of_nat_add)
qed

lemma laterRounds_pass:
  assumes "nr + rp \<le> i" and "0 < rp" and "i \<le> length reply"
    and "\<forall>k. i \<le> k \<and> k < length reply \<longrightarrow>
           bulkSlotCheck rep bgn ''response'' (oid (reply ! (k - rp))) (k - rp) (reply ! k) k = None"
  shows "laterRounds rep bgn (int nr) (int rp) reply i (drop i reply) (shapeAt nr rp reply i)
       = Inr (Success (shapeAt nr rp reply (length reply)))"
  using assms
proof (induction "length reply - i" arbitrary: i)
  case 0
  then have "i = length reply" by simp
  then show ?case by simp
next
  case (Suc d)
  then have lt: "i < length reply" by simp
  have dr: "drop i reply = reply ! i # drop (Suc i) reply"
    using lt by (simp add: Cons_nth_drop_Suc)
  have c: "bulkSlotCheck rep bgn ''response'' (oid (reply ! (i - rp))) (i - rp) (reply ! i) i = None"
    using Suc.prems(4) lt by simp
  have "laterRounds rep bgn (int nr) (int rp) reply (Suc i) (drop (Suc i) reply) (shapeAt nr rp reply (Suc i))
       = Inr (Success (shapeAt nr rp reply (length reply)))"
  proof (rule Suc.hyps(1))
    show "d = length reply - Suc i" using Suc.hyps(2) by simp
    show "nr + rp \<le> Suc i" using Suc.prems(1) by simp
    show "0 < rp" by (rule Suc.prems(2))
    show "Suc i \<le> length reply" using lt by simp
    show "\<forall>k. Suc i \<le> k \<and> k < length reply \<longrightarrow>
           bulkSlotCheck rep bgn ''response'' (oid (reply ! (k - rp))) (k - rp) (reply ! k) k = None"
      using Suc.prems(4) by simp
  qed
  with laterRounds_step [OF Suc.prems(1,2) lt c, of "drop (Suc i) reply"] dr
  show ?case by simp
qed

lemma shapeAt_full: "shapeAt nr rp reply (length reply) = bulkShape nr rp reply"
  by (simp add: shapeAt_def bulkShape_def)

lemma getBulk_pass:
  assumes len: "length reqVarbinds = nr + rp" and rp: "1 \<le> rp"
    and pass: "passesChecks rep bgn rp reqVarbinds reply"
  shows "firstRound rep bgn (int nr) 0 reqVarbinds reply [] =
           Inr (shapeAt nr rp reply (min (nr + rp) (length reply)), min (nr + rp) (length reply))"
    and "laterRounds rep bgn (int nr) (int rp) reply (min (nr + rp) (length reply))
           (drop (min (nr + rp) (length reply)) reply)
           (shapeAt nr rp reply (min (nr + rp) (length reply)))
         = Inr (Success (bulkShape nr rp reply))"
proof -
  define n where "n = min (nr + rp) (length reply)"
  have first: "\<forall>k < min (length reqVarbinds) (length reply).
      bulkSlotCheck rep bgn ''request'' (oid (reqVarbinds ! k)) (0 + k) (reply ! k) (0 + k) = None"
  proof (intro allI impI)
    fix k assume k: "k < min (length reqVarbinds) (length reply)"
    then have "k \<in> set [0..<length reply]" by simp
    with pass k show "bulkSlotCheck rep bgn ''request'' (oid (reqVarbinds ! k)) (0 + k) (reply ! k) (0 + k) = None"
      unfolding passesChecks_def by (auto split: if_splits)
  qed
  have "openEntries nr 0 (take n reply) = shapeAt nr rp reply n"
    by (rule shapeAt_first_round) (simp_all add: n_def)
  with firstRound_pass [OF first, of nr "[]"] len
  show "firstRound rep bgn (int nr) 0 reqVarbinds reply [] =
           Inr (shapeAt nr rp reply (min (nr + rp) (length reply)), min (nr + rp) (length reply))"
    by (simp add: n_def)
  show "laterRounds rep bgn (int nr) (int rp) reply (min (nr + rp) (length reply))
           (drop (min (nr + rp) (length reply)) reply)
           (shapeAt nr rp reply (min (nr + rp) (length reply)))
         = Inr (Success (bulkShape nr rp reply))"
  proof (cases "nr + rp \<le> length reply")
    case True
    then have n: "min (nr + rp) (length reply) = nr + rp" by simp
    have later: "\<forall>k. nr + rp \<le> k \<and> k < length reply \<longrightarrow>
           bulkSlotCheck rep bgn ''response'' (oid (reply ! (k - rp))) (k - rp) (reply ! k) k = None"
    proof (intro allI impI)
      fix k assume k: "nr + rp \<le> k \<and> k < length reply"
      then have "k \<in> set [0..<length reply]" by simp
      with pass k len show "bulkSlotCheck rep bgn ''response'' (oid (reply ! (k - rp))) (k - rp) (reply ! k) k = None"
        unfolding passesChecks_def by (auto split: if_splits)
    qed
    from laterRounds_pass [OF _ _ True later] rp show ?thesis
      unfolding n by (simp add: shapeAt_full)
  next
    case False
    then have n: "min (nr + rp) (length reply) = length reply" by simp
    show ?thesis unfolding n by (simp add: shapeAt_full)
  qed
qed

text \<open>
  C1.  For a request of \<open>nr + rp\<close> varbinds with \<open>rp \<ge> 1\<close> and a reply whose varbinds all
  pass the check of their slot, the feed callback delivers the array \<open>bulkShape\<close>: it has
  as many entries as the shorter of the request and the reply; entry \<open>j < nr\<close> is reply
  varbind \<open>j\<close>; entry \<open>nr + j\<close> is the list, in reply order, of the reply varbinds at the
  indices \<open>k \<ge> nr\<close> with \<open>(k - nr) mod rp = j\<close>, so it opens with the first-round varbind
  and each later varbind \<open>i\<close> is appended to bucket \<open>(i - nr) mod rp + nr\<close> after its check
  against varbind \<open>i - rp\<close>.  When the reply is at least as long as the request, every
  repeater has its list.
\<close>

theorem getBulk_feed_shape:
  assumes "length (pvarbinds (mpdu reqMessage)) = nr + rp" and "1 \<le> rp"
    and "passesChecks rep bgn rp (pvarbinds (mpdu reqMessage)) (pvarbinds (mpdu replyMessage))"
  shows "getBulkFeedCb rep bgn (int nr) reqMessage replyMessage
           = Inr (Success (bulkShape nr rp (pvarbinds (mpdu replyMessage))))
       \<and> length (bulkShape nr rp (pvarbinds (mpdu replyMessage)))
           = min (nr + rp) (length (pvarbinds (mpdu replyMessage)))
       \<and> (nr + rp \<le> length (pvarbinds (mpdu replyMessage)) \<longrightarrow>
            bulkShape nr rp (pvarbinds (mpdu replyMessage))
              = fullBulkShape nr rp (pvarbinds (mpdu replyMessage)))"
proof -
  have a: "getBulkFeedCb rep bgn (int nr) reqMessage replyMessage
           = Inr (Success (bulkShape nr rp (pvarbinds (mpdu replyMessage))))"
    using getBulk_pass [OF assms] assms(1)
    by (simp add: getBulkFeedCb_def Let_def)
  have b: "length (bulkShape nr rp (pvarbinds (mpdu replyMessage)))
           = min (nr + rp) (length (pvarbinds (mpdu replyMessage)))"
    by (auto simp: bulkShape_def)
  have c: "nr + rp \<le> length (pvarbinds (mpdu replyMessage)) \<longrightarrow>
            bulkShape nr rp (pvarbinds (mpdu replyMessage))
              = fullBulkShape nr rp (pvarbinds (mpdu replyMessage))"
    by (auto simp: bulkShape_def fullBulkShape_def min_def)
  from a b c show ?thesis by blast
qed

lemma upt_5: "[0..<5] = [0, 1, 2, 3, 4]" "[0..<2] = [0, 1]" "[0..<3] = [0, 1, 2]"
  by (simp_all add: upt_rec)

text \<open>
  The example of the specification: one non-repeater, two repeaters, a reply of five.
\<close>

theorem getBulk_feed_shape_witness:
  "getBulkFeedCb False True 1
     (bulk_message [named ''1.3.6.1.2.1.1.3'', named ''1.3.6.1.2.1.2.2.1.2'', named ''1.3.6.1.2.1.2.2.1.3''])
     (bulk_message [named ''NR'', named ''R1a'', named ''R2a'', named ''R1b'', named ''R2b''])
   = Inr (Success [Single (named ''NR''), Bucket [named ''R1a'', named ''R1b''],
                   Bucket [named ''R2a'', named ''R2b'']])"
proof -
  have l: "length (pvarbinds (mpdu (bulk_message
      [named ''1.3.6.1.2.1.1.3'', named ''1.3.6.1.2.1.2.2.1.2'', named ''1.3.6.1.2.1.2.2.1.3'']))) = 1 + 2"
    by (simp add: bulk_message_def)
  have p: "passesChecks False True 2
      (pvarbinds (mpdu (bulk_message
         [named ''1.3.6.1.2.1.1.3'', named ''1.3.6.1.2.1.2.2.1.2'', named ''1.3.6.1.2.1.2.2.1.3''])))
      (pvarbinds (mpdu (bulk_message [named ''NR'', named ''R1a'', named ''R2a'', named ''R1b'', named ''R2b''])))"
    by (simp add: passesChecks_def bulk_message_def bulkSlotCheck_def)
  have s: "bulkShape 1 2 [named ''NR'', named ''R1a'', named ''R2a'', named ''R1b'', named ''R2b'']
      = [Single (named ''NR''), Bucket [named ''R1a'', named ''R1b''], Bucket [named ''R2a'', named ''R2b'']]"
    by (simp add: bulkShape_def bucketUpTo_def upt_5)
  from getBulk_feed_shape [OF l _ p] s show ?thesis by (simp add: bulk_message_def)
qed

text \<open>
  A reply shorter than the request passes every check, and the array delivered has no
  list for the repeater the reply does not reach.
\<close>

theorem getBulk_short_reply:
  "passesChecks False True 2
      [named ''1.3.6.1.2.1.1.3'', named ''1.3.6.1.2.1.2.2.1.2'', named ''1.3.6.1.2.1.2.2.1.3'']
      [named ''NR'', named ''R1a'']
   \<and> getBulkFeedCb False True 1
        (bulk_message [named ''1.3.6.1.2.1.1.3'', named ''1.3.6.1.2.1.2.2.1.2'', named ''1.3.6.1.2.1.2.2.1.3''])
        (bulk_message [named ''NR'', named ''R1a''])
      = Inr (Success [Single (named ''NR''), Bucket [named ''R1a'']])
   \<and> getBulkFeedCb False True 1
        (bulk_message [named ''1.3.6.1.2.1.1.3'', named ''1.3.6.1.2.1.2.2.1.2'', named ''1.3.6.1.2.1.2.2.1.3''])
        (bulk_message [named ''NR'', named ''R1a''])
      \<noteq> Inr (Success (fullBulkShape 1 2 [named ''NR'', named ''R1a'']))"
proof -
  have a: "passesChecks False True 2
      [named ''1.3.6.1.2.1.1.3'', named ''1.3.6.1.2.1.2.2.1.2'', named ''1.3.6.1.2.1.2.2.1.3'']
      [named ''NR'', named ''R1a'']"
    by (simp add: passesChecks_def bulkSlotCheck_def)
  have b: "getBulkFeedCb False True 1
        (bulk_message [named ''1.3.6.1.2.1.1.3'', named ''1.3.6.1.2.1.2.2.1.2'', named ''1.3.6.1.2.1.2.2.1.3''])
        (bulk_message [named ''NR'', named ''R1a''])
      = Inr (Success [Single (named ''NR''), Bucket [named ''R1a'']])"
    by (simp add: getBulkFeedCb_def bulk_message_def bulkSlotCheck_def isVarbindError_def named_def
        NoSuchObject_def NoSuchInstance_def EndOfMibView_def)
  have c: "fullBulkShape 1 2 [named ''NR'', named ''R1a'']
      = [Single (named ''NR''), Bucket [named ''R1a''], Bucket []]"
    by (simp add: fullBulkShape_def bucketUpTo_def upt_5)
  from a b c show ?thesis by simp
qed

subsection \<open>Trimming a walked batch\<close>


lemma subtreeLoop_inside:
  assumes "k \<le> length xs" and "\<forall>i < k. oidInSubtree b (oid (xs ! i))"
  shows "subtreeLoop b k xs d = Inr (xs, d)"
  using assms by (induction k) simp_all

lemma subtreeLoop_tail:
  assumes "\<forall>v \<in> set ins. oidInSubtree b (oid v)" and "\<forall>v \<in> set outs. \<not> oidInSubtree b (oid v)"
  shows "subtreeLoop b (length (ins @ outs)) (ins @ outs) d = Inr (ins, d \<or> outs \<noteq> [])"
  using assms(2)
proof (induction outs arbitrary: d rule: rev_induct)
  case Nil
  have "\<forall>i < length ins. oidInSubtree b (oid (ins ! i))" using assms(1) by simp
  from subtreeLoop_inside [OF le_refl this] show ?case by simp
next
  case (snoc x outs)
  have x: "\<not> oidInSubtree b (oid x)" using snoc.prems by simp
  have "subtreeLoop b (length (ins @ outs @ [x])) (ins @ outs @ [x]) d
      = subtreeLoop b (length (ins @ outs)) (ins @ outs) True"
    using x by (simp add: nth_append butlast_append)
  also have "\<dots> = Inr (ins, True)" using snoc by simp
  finally show ?case by simp
qed

text \<open>
  When the varbinds outside the subtree are the last ones of the batch, \<^verbatim>\<open>subtreeCb\<close>
  hands on exactly the varbinds inside the subtree and stops the walk if there was any
  outside.
\<close>

lemma subtreeCb_tail:
  assumes "\<forall>v \<in> set ins. oidInSubtree b (oid v)" and "\<forall>v \<in> set outs. \<not> oidInSubtree b (oid v)"
  shows "subtreeCb b feed (ins @ outs)
     = Inr (if ins = [] then None else Some (filter (\<lambda>v. oidInSubtree b (oid v)) (ins @ outs)),
            outs \<noteq> [] \<or> (ins \<noteq> [] \<and> feed ins))"
proof -
  have f: "filter (\<lambda>v. oidInSubtree b (oid v)) (ins @ outs) = ins"
    using assms by (simp add: filter_id_conv filter_empty_conv)
  show ?thesis
    unfolding subtreeCb_def subtreeLoop_tail [OF assms] f by auto
qed

text \<open>
  C6.  A varbind outside the subtree that is not at the end of its batch is not removed:
  for the base \<open>1.3.6.1.2.1.1\<close> and a batch whose second varbind of three is outside,
  \<^verbatim>\<open>subtreeCb\<close> hands the first two varbinds to the caller's feed callback, the outsider
  among them, and drops the third, which is inside; the varbinds inside the subtree are
  the first and the third.  The walk is stopped.
\<close>

theorem subtreeCb_keeps_outsider:
  "subtreeCb ''1.3.6.1.2.1.1'' (\<lambda>_. False)
     [named ''1.3.6.1.2.1.1.1.0'', named ''1.3.6.1.2.1.2.1.0'', named ''1.3.6.1.2.1.1.3.0'']
   = Inr (Some [named ''1.3.6.1.2.1.1.1.0'', named ''1.3.6.1.2.1.2.1.0''], True)
   \<and> filter (\<lambda>v. oidInSubtree ''1.3.6.1.2.1.1'' (oid v))
       [named ''1.3.6.1.2.1.1.1.0'', named ''1.3.6.1.2.1.2.1.0'', named ''1.3.6.1.2.1.1.3.0'']
     = [named ''1.3.6.1.2.1.1.1.0'', named ''1.3.6.1.2.1.1.3.0'']"
proof -
  have a: "oidInSubtree ''1.3.6.1.2.1.1'' ''1.3.6.1.2.1.1.1.0''"
    by (simp add: oidInSubtree_def Let_def)
  have b: "\<not> oidInSubtree ''1.3.6.1.2.1.1'' ''1.3.6.1.2.1.2.1.0''"
    by (simp add: oidInSubtree_def Let_def)
  have c: "oidInSubtree ''1.3.6.1.2.1.1'' ''1.3.6.1.2.1.1.3.0''"
    by (simp add: oidInSubtree_def Let_def)
  have n: "[named ''1.3.6.1.2.1.1.1.0'', named ''1.3.6.1.2.1.2.1.0'', named ''1.3.6.1.2.1.1.3.0''] ! 2
      = named ''1.3.6.1.2.1.1.3.0''"
     "[named ''1.3.6.1.2.1.1.1.0'', named ''1.3.6.1.2.1.2.1.0'', named ''1.3.6.1.2.1.1.3.0''] ! 1
      = named ''1.3.6.1.2.1.2.1.0''"
    by simp_all
  have o: "oid (named x) = x" for x by (simp add: named_def)
  have l: "subtreeLoop ''1.3.6.1.2.1.1'' (Suc (Suc (Suc 0)))
      [named ''1.3.6.1.2.1.1.1.0'', named ''1.3.6.1.2.1.2.1.0'', named ''1.3.6.1.2.1.1.3.0''] False
     = Inr ([named ''1.3.6.1.2.1.1.1.0'', named ''1.3.6.1.2.1.2.1.0''], True)"
    by (simp add: o a b c)
  have "subtreeCb ''1.3.6.1.2.1.1'' (\<lambda>_. False)
     [named ''1.3.6.1.2.1.1.1.0'', named ''1.3.6.1.2.1.2.1.0'', named ''1.3.6.1.2.1.1.3.0'']
   = Inr (Some [named ''1.3.6.1.2.1.1.1.0'', named ''1.3.6.1.2.1.2.1.0''], True)"
    using l by (simp add: subtreeCb_def)
  moreover have "filter (\<lambda>v. oidInSubtree ''1.3.6.1.2.1.1'' (oid v))
       [named ''1.3.6.1.2.1.1.1.0'', named ''1.3.6.1.2.1.2.1.0'', named ''1.3.6.1.2.1.1.3.0'']
     = [named ''1.3.6.1.2.1.1.1.0'', named ''1.3.6.1.2.1.1.3.0'']"
    by (simp add: o a b c)
  ultimately show ?thesis by simp
qed

subsection \<open>Doubles and 64-bit values\<close>


lemma ulpExp_small: "m < 2 ^ 53 \<Longrightarrow> ulpExp m = 0"
  by (simp add: ulpExp.simps)

lemma ulpExp_2_53: "ulpExp (2 ^ 53) = 1"
proof -
  have "ulpExp (2 ^ 53) = Suc (ulpExp (2 ^ 53 div 2))"
    by (subst ulpExp.simps) simp
  also have "(2 ^ 53 div 2 :: nat) = 2 ^ 52" by simp
  also have "ulpExp (2 ^ 52) = 0" by (rule ulpExp_small) simp
  finally show ?thesis by simp
qed

lemma fl_exact:
  assumes "\<bar>x\<bar> \<le> 2 ^ 53"
  shows "fl x = x"
proof (cases "\<bar>x\<bar> < 2 ^ 53")
  case True
  then have "nat \<bar>x\<bar> < 2 ^ 53" by (simp add: nat_less_iff)
  then have "ulpExp (nat \<bar>x\<bar>) = 0" by (rule ulpExp_small)
  then have "fl x = sgn x * int (nat \<bar>x\<bar>)" by (simp add: fl_def Let_def)
  also have "\<dots> = x" by (simp add: sgn_if)
  finally show ?thesis .
next
  case False
  with assms have a: "\<bar>x\<bar> = 2 ^ 53" by simp
  then have n: "nat \<bar>x\<bar> = 2 ^ 53" by simp
  have "fl x = sgn x * int (2 ^ 52 * 2)"
    unfolding fl_def Let_def n ulpExp_2_53 by simp
  also have "\<dots> = sgn x * \<bar>x\<bar>" using a by simp
  also have "\<dots> = x" by (simp add: sgn_if)
  finally show ?thesis .
qed

lemma foldl_be: "foldl (\<lambda>n b. n * 256 + uint (b :: byte)) n ys
    = n * 256 ^ length ys + foldl (\<lambda>n b. n * 256 + uint b) 0 ys"
proof (induction ys arbitrary: n)
  case Nil show ?case by simp
next
  case (Cons y ys)
  let ?f = "\<lambda>n b. n * 256 + uint (b :: byte)"
  have a: "foldl ?f (n * 256 + uint y) ys = (n * 256 + uint y) * 256 ^ length ys + foldl ?f 0 ys"
    by (rule Cons)
  have b: "foldl ?f (uint y) ys = uint y * 256 ^ length ys + foldl ?f 0 ys"
    by (rule Cons)
  have "foldl ?f n (y # ys) = foldl ?f (n * 256 + uint y) ys" by simp
  moreover have "foldl ?f 0 (y # ys) = foldl ?f (uint y) ys" by simp
  ultimately show ?case unfolding a b by (simp add: algebra_simps)
qed

lemma beValue_append: "beValue (xs @ ys) = beValue xs * 256 ^ length ys + beValue ys"
  using foldl_be [of "beValue xs" ys] by (simp add: beValue_def)

lemma beValue_bounds: "0 \<le> beValue xs \<and> beValue xs < 256 ^ length xs"
proof (induction xs rule: rev_induct)
  case Nil show ?case by (simp add: beValue_def)
next
  case (snoc x xs)
  have u: "0 \<le> uint x" "uint x < 256" using uint_bounded [of x] by simp_all
  have e: "beValue (xs @ [x]) = beValue xs * 256 + uint x"
    by (simp add: beValue_append) (simp add: beValue_def)
  from snoc have "beValue xs + 1 \<le> 256 ^ length xs" by simp
  then have "(beValue xs + 1) * 256 \<le> 256 ^ length xs * 256" by (rule mult_right_mono) simp
  with u snoc show ?case unfolding e by (simp add: algebra_simps)
qed

lemma beValue_zeros: "beValue (replicate n 0 @ bs) = beValue bs"
proof -
  have "beValue (replicate n 0) = 0"
    by (induction n) (simp_all add: beValue_def)
  then show ?thesis by (simp add: beValue_append)
qed

lemma padTo8_short: "length bs \<le> 8 \<Longrightarrow> padTo8 bs = replicate (8 - length bs) 0 @ bs"
proof (induction "8 - length bs" arbitrary: bs)
  case 0
  then show ?case by (simp add: padTo8.simps)
next
  case (Suc d)
  then have l: "length bs < 8" by simp
  have "padTo8 bs = padTo8 (0 # bs)" using l by (subst padTo8.simps) simp
  also have "\<dots> = replicate (8 - length (0 # bs)) 0 @ 0 # bs"
    using Suc by (intro Suc.hyps(1)) simp_all
  also have "\<dots> = replicate (8 - length bs) 0 @ bs"
  proof -
    have "8 - length bs = Suc (7 - length bs)" using l by simp
    then show ?thesis by (simp add: replicate_app_Cons_same)
  qed
  finally show ?case .
qed


lemma beValue_split8:
  assumes "length b = 8"
  shows "beValue b = beValue (take 4 b) * 4294967296 + beValue (take 4 (drop 4 b))"
    and "0 \<le> beValue (take 4 b)" and "beValue (take 4 b) < 4294967296"
    and "0 \<le> beValue (take 4 (drop 4 b))" and "beValue (take 4 (drop 4 b)) < 4294967296"
proof -
  have d: "take 4 (drop 4 b) = drop 4 b" using assms by simp
  have "beValue b = beValue (take 4 b @ drop 4 b)" by simp
  also have "\<dots> = beValue (take 4 b) * 256 ^ length (drop 4 b) + beValue (drop 4 b)"
    by (rule beValue_append)
  finally show "beValue b = beValue (take 4 b) * 4294967296 + beValue (take 4 (drop 4 b))"
    using assms d by simp
  from beValue_bounds [of "take 4 b"] assms
  show "0 \<le> beValue (take 4 b)" "beValue (take 4 b) < 4294967296" by simp_all
  from beValue_bounds [of "drop 4 b"] assms d
  show "0 \<le> beValue (take 4 (drop 4 b))" "beValue (take 4 (drop 4 b)) < 4294967296" by simp_all
qed

lemma readInt64_arith:
  assumes H: "0 \<le> H" "H < 4294967296" and L: "0 \<le> L" "L < 4294967296"
    and V: "H * 4294967296 + L \<le> 2 ^ 53"
  shows "(let high = (if H \<ge> 2147483648 then H - 4294967296 else H);
              low = (if L \<ge> 2147483648 then L - 4294967296 else L);
              n = fl (fl (high * 4294967296) + low)
          in (if low < 0 then fl (n + 4294967296) else n)) = H * 4294967296 + L"
proof -
  have h: "\<not> H \<ge> 2147483648"
  proof
    assume "H \<ge> 2147483648"
    then have "H * 4294967296 \<ge> 2147483648 * 4294967296" by simp
    with L V show False by simp
  qed
  have hp: "\<bar>H * 4294967296\<bar> \<le> 2 ^ 53" using H L V by simp
  have f1: "fl (H * 4294967296) = H * 4294967296" by (rule fl_exact [OF hp])
  show ?thesis
  proof (cases "L \<ge> 2147483648")
    case False
    have "\<bar>H * 4294967296 + L\<bar> \<le> 2 ^ 53" using H L V by simp
    then have "fl (H * 4294967296 + L) = H * 4294967296 + L" by (rule fl_exact)
    with h False L f1 show ?thesis by (simp add: Let_def)
  next
    case True
    have "H * 4294967296 \<ge> 0" using H by simp
    then have "\<bar>H * 4294967296 + (L - 4294967296)\<bar> \<le> 2 ^ 53" using H L V True by simp
    then have f2: "fl (H * 4294967296 + (L - 4294967296)) = H * 4294967296 + (L - 4294967296)"
      by (rule fl_exact)
    have "\<bar>H * 4294967296 + L\<bar> \<le> 2 ^ 53" using H L V by simp
    then have f3: "fl (H * 4294967296 + L) = H * 4294967296 + L" by (rule fl_exact)
    from h True L f1 f2 f3 show ?thesis by (simp add: Let_def)
  qed
qed

text \<open>
  C7.  For a buffer of at most 8 bytes whose big-endian unsigned value is at most \<open>2^53\<close>,
  \<^verbatim>\<open>readInt64BEasFloat(buffer, 0)\<close> returns exactly that value, a shorter buffer counting
  as padded with zero bytes on the left.
\<close>

theorem readInt64BEasFloat_exact:
  assumes "length buffer \<le> 8" and "beValue buffer \<le> 2 ^ 53"
  shows "readInt64BEasFloat buffer 0 = Inr (beValue buffer)"
proof -
  define b where "b = padTo8 buffer"
  define H where "H = beValue (take 4 b)"
  define L where "L = beValue (take 4 (drop 4 b))"
  have pad: "b = replicate (8 - length buffer) 0 @ buffer"
    unfolding b_def by (rule padTo8_short [OF assms(1)])
  then have len: "length b = 8" using assms(1) by simp
  have val: "beValue b = beValue buffer" unfolding pad by (rule beValue_zeros)
  note s = beValue_split8 [OF len, folded H_def L_def]
  have V: "H * 4294967296 + L \<le> 2 ^ 53"
    using s(1) val assms(2) by simp
  have lo: "readInt32BE b (0 + 4) = Inr (if L \<ge> 2147483648 then L - 4294967296 else L)"
    unfolding L_def by (simp add: readInt32BE_def len Let_def)
  have hi: "readInt32BE b 0 = Inr (if H \<ge> 2147483648 then H - 4294967296 else H)"
    unfolding H_def by (simp add: readInt32BE_def len Let_def)
  have "readInt64BEasFloat buffer 0 =
      Inr (let high = (if H \<ge> 2147483648 then H - 4294967296 else H);
              low = (if L \<ge> 2147483648 then L - 4294967296 else L);
              n = fl (fl (high * 4294967296) + low)
          in (if low < 0 then fl (n + 4294967296) else n))"
    unfolding readInt64BEasFloat_def Let_def b_def [symmetric] lo hi by simp
  also have "\<dots> = Inr (H * 4294967296 + L)"
    using readInt64_arith [OF s(2-5) V] by simp
  finally show ?thesis using s(1) val by simp
qed

theorem readInt64BEasFloat_exact_witness:
  "readInt64BEasFloat [1, 2] 0 = Inr 258"
proof -
  have "beValue [1, 2] = 258" by (simp add: beValue_def)
  with readInt64BEasFloat_exact [of "[1, 2]"] show ?thesis by simp
qed

lemma fl_minus_2_32_1: "fl (- 4294967297) = - 4294967297"
  by (rule fl_exact) simp

lemma fl_2_53_1: "fl 9007199254740993 = 9007199254740992"
proof -
  have u: "ulpExp 9007199254740993 = 1"
  proof -
    have "ulpExp 9007199254740993 = Suc (ulpExp (9007199254740993 div 2))"
      by (subst ulpExp.simps) simp
    also have "(9007199254740993 div 2 :: nat) = 4503599627370496" by simp
    also have "ulpExp 4503599627370496 = 0" by (rule ulpExp_small) simp
    finally show ?thesis by simp
  qed
  show ?thesis unfolding fl_def Let_def by (simp add: u)
qed

text \<open>
  The value is not the unsigned one for every buffer of 8 bytes: eight bytes \<open>0xFF\<close> give
  \<open>-1\<close>, and \<open>2^53 + 1\<close> gives \<open>2^53\<close>, the nearest double.
\<close>

theorem readInt64BEasFloat_not_unsigned:
  "readInt64BEasFloat [255, 255, 255, 255, 255, 255, 255, 255] 0 = Inr (- 1)
   \<and> beValue [255, 255, 255, 255, 255, 255, 255, 255] = 18446744073709551615
   \<and> readInt64BEasFloat [0, 32, 0, 0, 0, 0, 0, 1] 0 = Inr 9007199254740992
   \<and> beValue [0, 32, 0, 0, 0, 0, 0, 1] = 9007199254740993"
proof -
  have p: "padTo8 [255, 255, 255, 255, 255, 255, 255, 255] = [255, 255, 255, 255, 255, 255, 255, 255]"
    "padTo8 [0, 32, 0, 0, 0, 0, 0, 1] = [0, 32, 0, 0, 0, 0, 0, 1 :: byte]"
    by (simp_all add: padTo8.simps)
  have f: "fl (- 4294967296) = - 4294967296" "fl (- 1) = - 1" "fl 9007199254740992 = 9007199254740992"
    by (rule fl_exact, simp)+
  have a: "readInt64BEasFloat [255, 255, 255, 255, 255, 255, 255, 255] 0 = Inr (- 1)"
    by (simp add: readInt64BEasFloat_def p readInt32BE_def beValue_def Let_def f fl_minus_2_32_1)
  have b: "beValue [255, 255, 255, 255, 255, 255, 255, 255] = 18446744073709551615"
    by (simp add: beValue_def)
  have c: "readInt64BEasFloat [0, 32, 0, 0, 0, 0, 0, 1] 0 = Inr 9007199254740992"
    by (simp add: readInt64BEasFloat_def p readInt32BE_def beValue_def Let_def f fl_2_53_1)
  have d: "beValue [0, 32, 0, 0, 0, 0, 0, 1] = 9007199254740993"
    by (simp add: beValue_def)
  from a b c d show ?thesis by simp
qed

subsection \<open>OID ordering\<close>


lemma scanNumber_piece:
  assumes "CHR ''.'' \<notin> set p"
  shows "scanNumber n (p @ CHR ''.'' # t) = (accumulate n p, t)"
    and "scanNumber n p = (accumulate n p, [])"
  using assms by (induction p arbitrary: n) (auto simp: accumulate_def)

lemma decimalValue_snoc: "decimalValue (p @ [c]) = decimalValue p * 10 + (of_char c - 48)"
  by (simp add: decimalValue_def)

lemma accumulate_snoc:
  "accumulate n (p @ [c]) =
     fl (fl (if accumulate n p \<noteq> 0 then accumulate n p * 10 else accumulate n p) + (of_char c - 48))"
  by (simp add: accumulate_def)

lemma accumulate_exact:
  assumes "list_all isDigit p" and "decimalValue p < 2 ^ 53"
  shows "accumulate 0 p = int (decimalValue p)"
  using assms
proof (induction p rule: rev_induct)
  case Nil show ?case by (simp add: accumulate_def decimalValue_def)
next
  case (snoc c p)
  define v where "v = decimalValue p"
  define d :: nat where "d = of_char c - 48"
  from snoc.prems have dig: "isDigit c" and dp: "list_all isDigit p" by simp_all
  from snoc.prems(2) have b: "v * 10 + d < 2 ^ 53"
    by (simp add: decimalValue_snoc v_def d_def)
  then have "v < 2 ^ 53" by simp
  with snoc.IH dp have ih: "accumulate 0 p = int v" by (simp add: v_def)
  have dd: "(of_char c :: int) - 48 = int d"
    using dig by (simp add: isDigit_def d_def of_nat_diff of_nat_of_char)
  have t: "(if int v \<noteq> 0 then int v * 10 else int v) = int (v * 10)" by simp
  have "\<bar>int (v * 10)\<bar> \<le> 2 ^ 53" using b by simp
  then have f1: "fl (int (v * 10)) = int (v * 10)" by (rule fl_exact)
  have "\<bar>int (v * 10) + int d\<bar> \<le> 2 ^ 53" using b by simp
  then have f2: "fl (int (v * 10) + int d) = int (v * 10) + int d" by (rule fl_exact)
  show ?case
    unfolding accumulate_snoc ih t f1 dd f2 decimalValue_snoc v_def [symmetric] d_def [symmetric]
    by simp
qed

lemma splitDot_shape:
  assumes "splitDot s = p # ps"
  shows "CHR ''.'' \<notin> set p \<and> (if ps = [] then s = p else \<exists>t. s = p @ CHR ''.'' # t \<and> splitDot t = ps)"
  using assms
proof (induction s arbitrary: p ps)
  case Nil then show ?case by simp
next
  case (Cons c s)
  show ?case
  proof (cases "c = CHR ''.''")
    case True
    with Cons.prems have "p = []" "ps = splitDot s" by simp_all
    with True show ?thesis using splitDot_nonempty [of s] by auto
  next
    case False
    obtain q qs where q: "splitDot s = q # qs"
      using splitDot_nonempty [of s] by (cases "splitDot s") auto
    with Cons.prems False have e: "p = c # q" "ps = qs" by simp_all
    from Cons.IH [OF q] have "CHR ''.'' \<notin> set q"
      and "if qs = [] then s = q else \<exists>t. s = q @ CHR ''.'' # t \<and> splitDot t = qs" by simp_all
    with e False show ?thesis by auto
  qed
qed

lemma wellFormed_head:
  assumes "wellFormedOid s"
  shows "\<exists>p ps t. splitDot s = p # ps \<and> getNumber s = Some (int (decimalValue p), t)
    \<and> (ps = [] \<longrightarrow> t = []) \<and> (ps \<noteq> [] \<longrightarrow> splitDot t = ps \<and> wellFormedOid t)"
proof -
  obtain p ps where sp: "splitDot s = p # ps"
    using splitDot_nonempty [of s] by (cases "splitDot s") auto
  from assms sp have p: "p \<noteq> []" "list_all isDigit p" "decimalValue p < 2 ^ 53"
    and rest: "list_all (\<lambda>p. p \<noteq> [] \<and> list_all isDigit p \<and> decimalValue p < 2 ^ 53) ps"
    by (simp_all add: wellFormedOid_def)
  from splitDot_shape [OF sp] have nd: "CHR ''.'' \<notin> set p"
    and sh: "if ps = [] then s = p else \<exists>t. s = p @ CHR ''.'' # t \<and> splitDot t = ps" by simp_all
  have acc: "accumulate 0 p = int (decimalValue p)" by (rule accumulate_exact [OF p(2,3)])
  show ?thesis
  proof (cases "ps = []")
    case True
    with sh have "s = p" by simp
    with p(1) scanNumber_piece(2) [OF nd, of 0] acc
    have "getNumber s = Some (int (decimalValue p), [])" by (simp add: getNumber_def)
    with sp True show ?thesis by simp
  next
    case False
    with sh obtain t where t: "s = p @ CHR ''.'' # t" "splitDot t = ps" by auto
    with scanNumber_piece(1) [OF nd, of 0 t] acc
    have "getNumber s = Some (int (decimalValue p), t)" by (simp add: getNumber_def)
    moreover have "wellFormedOid t" using rest t(2) by (simp add: wellFormedOid_def)
    ultimately show ?thesis using sp False t(2) by simp
  qed
qed

lemma oidFollowsOid_refines:
  "wellFormedOid a \<Longrightarrow> wellFormedOid b \<Longrightarrow>
     oidFollowsOid a b = followsSpec (components a) (components b)"
proof (induction "length a" arbitrary: a b rule: less_induct)
  case less
  from wellFormed_head [OF less.prems(1)] obtain p ps t where a: "splitDot a = p # ps"
    "getNumber a = Some (int (decimalValue p), t)"
    "ps = [] \<longrightarrow> t = []" "ps \<noteq> [] \<longrightarrow> splitDot t = ps \<and> wellFormedOid t"
    by blast
  from wellFormed_head [OF less.prems(2)] obtain q qs u where b: "splitDot b = q # qs"
    "getNumber b = Some (int (decimalValue q), u)"
    "qs = [] \<longrightarrow> u = []" "qs \<noteq> [] \<longrightarrow> splitDot u = qs \<and> wellFormedOid u"
    by blast
  have ca: "components a = decimalValue p # map decimalValue ps"
    and cb: "components b = decimalValue q # map decimalValue qs"
    using a(1) b(1) by (simp_all add: components_def)
  have unfold: "oidFollowsOid a b =
      (if decimalValue q > decimalValue p then True
       else if decimalValue q < decimalValue p then False
       else oidFollowsOid t u)"
    by (subst oidFollowsOid.simps) (simp add: a(2) b(2))
  have tail: "oidFollowsOid t u = followsSpec (map decimalValue ps) (map decimalValue qs)"
  proof (cases "ps = []")
    case True
    with a(3) have "t = []" by simp
    then have "oidFollowsOid t u" by (subst oidFollowsOid.simps) (simp add: getNumber_def)
    with True show ?thesis by simp
  next
    case False
    with a(4) have t: "splitDot t = ps" "wellFormedOid t" by simp_all
    show ?thesis
    proof (cases "qs = []")
      case True
      with b(3) have "u = []" by simp
      then have "oidFollowsOid t u"
        by (subst oidFollowsOid.simps) (simp add: getNumber_def split: option.split)
      moreover obtain x xs where "ps = x # xs" using False by (cases ps) auto
      ultimately show ?thesis using True by simp
    next
      case qne: False
      with b(4) have u: "splitDot u = qs" "wellFormedOid u" by simp_all
      have "length t < length a" using a(2) by (rule getNumber_shorter)
      from less.hyps [OF this t(2) u(2)] t(1) u(1) show ?thesis
        by (simp add: components_def)
    qed
  qed
  show ?case unfolding unfold ca cb tail by simp
qed

lemma oidFollowsOid_self: "oidFollowsOid x x"
proof (induction "length x" arbitrary: x rule: less_induct)
  case less
  show ?case
  proof (cases "getNumber x")
    case None
    then show ?thesis by (subst oidFollowsOid.simps) simp
  next
    case (Some r)
    obtain n t where r: "r = (n, t)" by (cases r)
    with Some have "length t < length x" by (auto dest: getNumber_shorter)
    then have "oidFollowsOid t t" by (rule less.hyps)
    with Some r show ?thesis by (subst oidFollowsOid.simps) simp
  qed
qed


lemma example_oids:
  "wellFormedOid ''1.3.6.1.2''" "wellFormedOid ''1.3.6.1.3''"
  "components ''1.3.6.1.2'' = [1, 3, 6, 1, 2]" "components ''1.3.6.1.3'' = [1, 3, 6, 1, 3]"
  by (simp_all add: wellFormedOid_def components_def isDigit_def decimalValue_def)

text \<open>
  C8.  On dotted-decimal OIDs (non-empty components of decimal digits, each below
  \<open>2^53\<close>), \<^verbatim>\<open>oidFollowsOid\<close> compares the components as numbers from the left: true at
  the first component where the second OID is larger, false at the first where it is
  smaller, true when either OID runs out.  So \<^verbatim>\<open>oidFollowsOid('1.3.6.1.2', '1.3.6.1.3')\<close>
  is true, with the arguments swapped it is false, and \<^verbatim>\<open>oidFollowsOid(x, x)\<close> is true for
  every string \<open>x\<close>.
\<close>

theorem oidFollowsOid_compares_components:
  "(wellFormedOid a \<and> wellFormedOid b \<longrightarrow>
      oidFollowsOid a b = followsSpec (components a) (components b))
   \<and> oidFollowsOid ''1.3.6.1.2'' ''1.3.6.1.3''
   \<and> \<not> oidFollowsOid ''1.3.6.1.3'' ''1.3.6.1.2''
   \<and> oidFollowsOid x x"
proof -
  have r: "wellFormedOid a \<and> wellFormedOid b \<longrightarrow>
      oidFollowsOid a b = followsSpec (components a) (components b)"
    using oidFollowsOid_refines by blast
  have e1: "oidFollowsOid ''1.3.6.1.2'' ''1.3.6.1.3''"
    using oidFollowsOid_refines [OF example_oids(1) example_oids(2)]
    by (simp add: example_oids)
  have e2: "\<not> oidFollowsOid ''1.3.6.1.3'' ''1.3.6.1.2''"
    using oidFollowsOid_refines [OF example_oids(2) example_oids(1)]
    by (simp add: example_oids)
  from r e1 e2 oidFollowsOid_self show ?thesis by blast
qed

theorem oidFollowsOid_compares_components_witness:
  "oidFollowsOid ''1.3.6.1.2.1.1.9'' ''1.3.6.1.2.1.1.10.0''
   \<and> \<not> oidFollowsOid ''1.3.6.1.2.1.2.1'' ''1.3.6.1.2.1.1.3.0''"
proof -
  have w: "wellFormedOid ''1.3.6.1.2.1.1.9''" "wellFormedOid ''1.3.6.1.2.1.1.10.0''"
    "wellFormedOid ''1.3.6.1.2.1.2.1''" "wellFormedOid ''1.3.6.1.2.1.1.3.0''"
    by (simp_all add: wellFormedOid_def isDigit_def decimalValue_def)
  have c: "components ''1.3.6.1.2.1.1.9'' = [1, 3, 6, 1, 2, 1, 1, 9]"
    "components ''1.3.6.1.2.1.1.10.0'' = [1, 3, 6, 1, 2, 1, 1, 10, 0]"
    "components ''1.3.6.1.2.1.2.1'' = [1, 3, 6, 1, 2, 1, 2, 1]"
    "components ''1.3.6.1.2.1.1.3.0'' = [1, 3, 6, 1, 2, 1, 1, 3, 0]"
    by (simp_all add: components_def decimalValue_def)
  from oidFollowsOid_compares_components [of "''1.3.6.1.2.1.1.9''" "''1.3.6.1.2.1.1.10.0''"]
       oidFollowsOid_compares_components [of "''1.3.6.1.2.1.2.1''" "''1.3.6.1.2.1.1.3.0''"] w
  show ?thesis by (simp add: c)
qed

subsection \<open>Table assembly\<close>









subsection \<open>Report PDUs: the outcome\<close>

lemma componentsMatch_prefix: "componentsMatch xs ys \<Longrightarrow> \<exists>zs. ys = xs @ zs"
  by (induction xs ys rule: componentsMatch.induct) (auto split: if_splits)

lemma splitDot_nodot: "CHR ''.'' \<notin> set p \<Longrightarrow> splitDot p = [p]"
  by (induction p) auto

lemma splitDot_inj: "splitDot a = ps \<Longrightarrow> splitDot b = ps \<Longrightarrow> a = b"
proof (induction ps arbitrary: a b)
  case Nil
  then show ?case using splitDot_nonempty by blast
next
  case (Cons p ps)
  from splitDot_shape [OF Cons.prems(1)] splitDot_shape [OF Cons.prems(2)]
  show ?case
  proof (cases "ps = []")
    case True
    with splitDot_shape [OF Cons.prems(1)] splitDot_shape [OF Cons.prems(2)] show ?thesis by simp
  next
    case False
    with splitDot_shape [OF Cons.prems(1)] obtain t where t: "a = p @ CHR ''.'' # t" "splitDot t = ps"
      by auto
    from False splitDot_shape [OF Cons.prems(2)] obtain u where u: "b = p @ CHR ''.'' # u" "splitDot u = ps"
      by auto
    from Cons.IH [OF t(2) u(2)] t(1) u(1) show ?thesis by simp
  qed
qed

lemma splitDot_cut:
  "splitDot s = ps @ zs \<Longrightarrow> ps \<noteq> [] \<Longrightarrow> zs \<noteq> [] \<Longrightarrow>
     \<exists>a t. s = a @ CHR ''.'' # t \<and> splitDot a = ps"
proof (induction ps arbitrary: s)
  case Nil then show ?case by simp
next
  case (Cons p ps)
  from Cons.prems(1) have sp: "splitDot s = p # (ps @ zs)" by simp
  from Cons.prems(3) have ne: "ps @ zs \<noteq> []" by simp
  from splitDot_shape [OF sp] ne obtain t where t: "s = p @ CHR ''.'' # t" "splitDot t = ps @ zs"
    and nd: "CHR ''.'' \<notin> set p" by auto
  show ?case
  proof (cases "ps = []")
    case True
    with t nd show ?thesis by (auto simp: splitDot_nodot)
  next
    case False
    from Cons.IH [OF t(2) False Cons.prems(3)] obtain a u where
      a: "t = a @ CHR ''.'' # u" "splitDot a = ps" by blast
    have "s = (p @ CHR ''.'' # a) @ CHR ''.'' # u" using t(1) a(1) by simp
    moreover have "splitDot (p @ CHR ''.'' # a) = p # ps"
      using a(2) nd by (simp add: splitDot_append_dot splitDot_nodot)
    ultimately show ?thesis by blast
  qed
qed

lemma oidInSubtree_shape:
  assumes "oidInSubtree b s"
  shows "s = b \<or> (\<exists>t. s = b @ CHR ''.'' # t)"
proof -
  from assms have "componentsMatch (splitDot b) (splitDot s)"
    by (simp add: oidInSubtree_def Let_def split: if_splits)
  then obtain zs where z: "splitDot s = splitDot b @ zs"
    using componentsMatch_prefix by blast
  show ?thesis
  proof (cases "zs = []")
    case True
    with z have "s = b" by (intro splitDot_inj [of s "splitDot b" b]) simp_all
    then show ?thesis by simp
  next
    case False
    from splitDot_cut [OF z splitDot_nonempty False] obtain a t where
      a: "s = a @ CHR ''.'' # t" "splitDot a = splitDot b" by blast
    from a(2) have "a = b" by (intro splitDot_inj [of a "splitDot b" b]) simp_all
    with a(1) show ?thesis by blast
  qed
qed

lemma stripDotZero_key:
  assumes "stripDotZero t = k"
  shows "t = k \<or> t = k @ ''.0''"
proof (cases "2 \<le> length t \<and> drop (length t - 2) t = ''.0''")
  case True
  with assms have "take (length t - 2) t = k" by (simp add: stripDotZero_def)
  moreover have "t = take (length t - 2) t @ drop (length t - 2) t" by simp
  ultimately show ?thesis using True by metis
next
  case False
  with assms show ?thesis by (simp add: stripDotZero_def)
qed

lemma stripDotZero_set: "set (stripDotZero t) \<subseteq> set t"
  by (auto simp: stripDotZero_def dest: in_set_takeD)

lemma UsmStats_dotted:
  assumes "dottedDecimal x" and "x \<notin> set usmStatsKeys"
  shows "UsmStats x = None"
proof -
  have d: "\<forall>c \<in> set x. isDigit c \<or> c = CHR ''.''"
    using assms(1) by (simp add: dottedDecimal_def list_all_iff)
  have n: "x \<noteq> ''Unsupported Security Level''" "x \<noteq> ''Not In Time Window''"
    "x \<noteq> ''Unknown User Name''" "x \<noteq> ''Unknown Engine ID''"
    "x \<noteq> ''Wrong Digest (incorrect password, community or key)''" "x \<noteq> ''Decryption Error''"
    using d by (auto simp: isDigit_def)
  from assms(2) n show ?thesis by (simp add: UsmStats_def usmStatsKeys_def)
qed

lemma refused_under_unnamed:
  assumes "pvarbinds (mpdu m) = vb # rest"
    and "oidInSubtree UsmStatsBase (oid vb)" and "dottedDecimal (oid vb)"
    and "\<forall>k \<in> set usmStatsKeys.
           oid vb \<noteq> UsmStatsBase @ ''.'' @ k @ ''.0'' \<and> oid vb \<noteq> UsmStatsBase @ ''.'' @ k"
  shows "reportRefused r m s
           = deliver r (Failure (ResponseInvalidError ''Unexpected Report PDU'' EAuthFailure)) s"
proof -
  have none: "UsmStats (stripDotZero (removeFirst (UsmStatsBase @ ''.'') (oid vb))) = None"
    and sw: "startsWith (oid vb) UsmStatsBase"
  proof -
    from oidInSubtree_shape [OF assms(2)]
    consider "oid vb = UsmStatsBase" | t where "oid vb = UsmStatsBase @ CHR ''.'' # t" by blast
    then have "UsmStats (stripDotZero (removeFirst (UsmStatsBase @ ''.'') (oid vb))) = None
        \<and> startsWith (oid vb) UsmStatsBase"
    proof cases
      case 1
      have a: "startsWith (oid vb) UsmStatsBase" using 1 by (simp add: startsWith_def)
      have b: "\<not> startsWith (oid vb) (UsmStatsBase @ ''.'')"
        using 1 by (simp add: startsWith_def)
      from usm_suffix_unnamed [OF a b] a show ?thesis by simp
    next
      case 2
      have a: "startsWith (oid vb) UsmStatsBase" using 2 by (simp add: startsWith_def)
      have rm: "removeFirst (UsmStatsBase @ ''.'') (oid vb) = t"
        using removeFirst_prefix [of "UsmStatsBase @ ''.''" t] 2 by simp
      have "set t \<subseteq> set (oid vb)" using 2 by auto
      with stripDotZero_set [of t] assms(3) have dd: "dottedDecimal (stripDotZero t)"
        by (auto simp: dottedDecimal_def list_all_iff)
      have nk: "stripDotZero t \<notin> set usmStatsKeys"
      proof
        assume k: "stripDotZero t \<in> set usmStatsKeys"
        from stripDotZero_key [OF refl, of t]
        have "oid vb = UsmStatsBase @ ''.'' @ stripDotZero t
            \<or> oid vb = UsmStatsBase @ ''.'' @ stripDotZero t @ ''.0''"
          using 2 by auto
        with assms(4) k show False by blast
      qed
      from UsmStats_dotted [OF dd nk] rm a show ?thesis by simp
    qed
    then show "UsmStats (stripDotZero (removeFirst (UsmStatsBase @ ''.'') (oid vb))) = None"
      and "startsWith (oid vb) UsmStatsBase" by simp_all
  qed
  from none sw assms(1) show ?thesis
    by (simp add: reportRefused_def userSecurityModelError_def Let_def)
qed

text \<open>
  C5.  A Report PDU arrives for a pending request and reaches the report branch (security
  processing passed, version and community agree, the session has no proxy).  If the
  request has no original PDU or may not take a report (in particular when both hold),
  the response callback gets one failure: when the first varbind's OID is one of the six
  USM statistics under \<open>1.3.6.1.6.3.15.1.1\<close> (with or without the instance \<open>.0\<close>), its
  message is that statistic's name; for every other dotted-decimal OID under the subtree
  of \<open>1.3.6.1.6.3.15.1.1\<close> its message is "Unexpected Report PDU", with the code of an
  authentication failure; for an OID outside the subtree its message is
  "Unexpected Report PDU".  If the request has an original PDU and may take a report, no
  callback is invoked and the original PDU is sent again in a new request with the same
  response callback (the new message being one that encodes).
\<close>

theorem report_for_pending_request:
  assumes "map_of (reqs s) (reqId m) = Some r"
    and "securityFailure m = None"
    and "version m = version (rmessage (heap s r))"
    and "community m = community (rmessage (heap s r))"
    and "ptype (mpdu m) = Report"
    and "msgSecurityParameters m = Some sp"
    and "proxy s = None"
    and "pvarbinds (mpdu m) = vb # rest"
  shows "(originalPdu (heap s r) = None \<or> \<not> allowReport (heap s r) \<longrightarrow>
            (k \<in> set usmStatsKeys \<and> UsmStats k = Some name
               \<and> (oid vb = UsmStatsBase @ ''.'' @ k @ ''.0'' \<or> oid vb = UsmStatsBase @ ''.'' @ k) \<longrightarrow>
               callbacks (onMsg cr (Some m) s) =
                 callbacks s @ [(responseCb (heap s r), Failure (ResponseInvalidError name EAuthFailure))])
            \<and> (oidInSubtree UsmStatsBase (oid vb) \<and> dottedDecimal (oid vb)
                 \<and> (\<forall>k \<in> set usmStatsKeys. oid vb \<noteq> UsmStatsBase @ ''.'' @ k @ ''.0''
                                              \<and> oid vb \<noteq> UsmStatsBase @ ''.'' @ k) \<longrightarrow>
               callbacks (onMsg cr (Some m) s) =
                 callbacks s @ [(responseCb (heap s r),
                    Failure (ResponseInvalidError ''Unexpected Report PDU'' EAuthFailure))])
            \<and> (\<not> oidInSubtree UsmStatsBase (oid vb) \<longrightarrow>
                (\<exists>code. callbacks (onMsg cr (Some m) s) =
                   callbacks s @ [(responseCb (heap s r),
                      Failure (ResponseInvalidError ''Unexpected Report PDU'' code))])))
       \<and> (originalPdu (heap s r) = Some p0 \<and> allowReport (heap s r)
            \<and> wire (cr (Some \<lparr> msgAuthoritativeEngineID = msgAuthoritativeEngineID sp,
                          msgAuthoritativeEngineBoots = msgAuthoritativeEngineBoots sp,
                          msgAuthoritativeEngineTime = msgAuthoritativeEngineTime sp,
                          msgUserName = None, msgAuthenticationParameters = None,
                          msgPrivacyParameters = None \<rparr>)
                       (p0\<lparr>contextName := sessionContext s\<rparr>)) = Some buffer \<longrightarrow>
            callbacks (onMsg cr (Some m) s) = callbacks s
            \<and> sending (onMsg cr (Some m) s) = sending s @ [(nextRef s, False, buffer)]
            \<and> originalPdu (heap (onMsg cr (Some m) s) (nextRef s))
                 = Some (p0\<lparr>contextName := sessionContext s\<rparr>)
            \<and> responseCb (heap (onMsg cr (Some m) s) (nextRef s)) = responseCb (heap s r))"
proof -
  define s1 where "s1 = fst (unregisterRequest (reqId m) s)"
  note u = unregister_present [OF assms(1), folded s1_def]
  have step: "onMsg cr (Some m) s = onReport cr r m s1"
    unfolding s1_def by (rule onMsg_report [OF assms(1-5)])
  define s2 where "s2 = s1\<lparr>sessionSecurityParameters :=
      Some \<lparr> msgAuthoritativeEngineID = msgAuthoritativeEngineID sp,
             msgAuthoritativeEngineBoots = msgAuthoritativeEngineBoots sp,
             msgAuthoritativeEngineTime = msgAuthoritativeEngineTime sp,
             msgUserName = None, msgAuthenticationParameters = None,
             msgPrivacyParameters = None \<rparr>\<rparr>"
  have cb2: "callbacks s2 = callbacks s" "responseCb (heap s2 r) = responseCb (heap s r)"
    by (simp_all add: s2_def u)
  have refused: "originalPdu (heap s r) = None \<or> \<not> allowReport (heap s r)
      \<Longrightarrow> onMsg cr (Some m) s = reportRefused r m s2"
    unfolding step using assms(6,7)
    by (auto simp: onReport_def Let_def u s2_def split: option.split)
  have a: "callbacks (onMsg cr (Some m) s) =
        callbacks s @ [(responseCb (heap s r), Failure (ResponseInvalidError name EAuthFailure))]"
    if "originalPdu (heap s r) = None \<or> \<not> allowReport (heap s r)"
      and "k \<in> set usmStatsKeys \<and> UsmStats k = Some name
               \<and> (oid vb = UsmStatsBase @ ''.'' @ k @ ''.0'' \<or> oid vb = UsmStatsBase @ ''.'' @ k)"
  proof -
    from that(2) have "reportRefused r m s2 = deliver r (Failure (ResponseInvalidError name EAuthFailure)) s2"
      using refused_named [OF assms(8), of k name r s2] by blast
    with refused [OF that(1)] show ?thesis by (simp add: deliver_def cb2)
  qed
  have un: "callbacks (onMsg cr (Some m) s) =
        callbacks s @ [(responseCb (heap s r),
           Failure (ResponseInvalidError ''Unexpected Report PDU'' EAuthFailure))]"
    if "originalPdu (heap s r) = None \<or> \<not> allowReport (heap s r)"
      and "oidInSubtree UsmStatsBase (oid vb) \<and> dottedDecimal (oid vb)
                 \<and> (\<forall>k \<in> set usmStatsKeys. oid vb \<noteq> UsmStatsBase @ ''.'' @ k @ ''.0''
                                              \<and> oid vb \<noteq> UsmStatsBase @ ''.'' @ k)"
  proof -
    from that(2) have "reportRefused r m s2
        = deliver r (Failure (ResponseInvalidError ''Unexpected Report PDU'' EAuthFailure)) s2"
      using refused_under_unnamed [OF assms(8), of r s2] by blast
    with refused [OF that(1)] show ?thesis by (simp add: deliver_def cb2)
  qed
  have b: "\<exists>code. callbacks (onMsg cr (Some m) s) =
        callbacks s @ [(responseCb (heap s r), Failure (ResponseInvalidError ''Unexpected Report PDU'' code))]"
    if "originalPdu (heap s r) = None \<or> \<not> allowReport (heap s r)"
      and "\<not> oidInSubtree UsmStatsBase (oid vb)"
  proof -
    from refused_outside [OF assms(8) that(2), of r s2] obtain code where
      "reportRefused r m s2 = deliver r (Failure (ResponseInvalidError ''Unexpected Report PDU'' code)) s2"
      by blast
    with refused [OF that(1)] have "callbacks (onMsg cr (Some m) s) =
        callbacks s @ [(responseCb (heap s r), Failure (ResponseInvalidError ''Unexpected Report PDU'' code))]"
      by (simp add: deliver_def cb2)
    then show ?thesis by blast
  qed
  have c: "callbacks (onMsg cr (Some m) s) = callbacks s
            \<and> sending (onMsg cr (Some m) s) = sending s @ [(nextRef s, False, buffer)]
            \<and> originalPdu (heap (onMsg cr (Some m) s) (nextRef s))
                 = Some (p0\<lparr>contextName := sessionContext s\<rparr>)
            \<and> responseCb (heap (onMsg cr (Some m) s) (nextRef s)) = responseCb (heap s r)"
    if "originalPdu (heap s r) = Some p0 \<and> allowReport (heap s r)
            \<and> wire (cr (Some \<lparr> msgAuthoritativeEngineID = msgAuthoritativeEngineID sp,
                          msgAuthoritativeEngineBoots = msgAuthoritativeEngineBoots sp,
                          msgAuthoritativeEngineTime = msgAuthoritativeEngineTime sp,
                          msgUserName = None, msgAuthenticationParameters = None,
                          msgPrivacyParameters = None \<rparr>)
                       (p0\<lparr>contextName := sessionContext s\<rparr>)) = Some buffer"
    unfolding step using assms(6,7) that
    by (simp add: onReport_def Let_def u sendV3Req_def send_def)
  from a un b c show ?thesis by blast
qed


lemma v3_pending_eval:
  "reqs (v3_pending p a) = [(9, 0)]" "callbacks (v3_pending p a) = []"
  "sending (v3_pending p a) = []" "proxy (v3_pending p a) = None" "nextRef (v3_pending p a) = 1"
  "heap (v3_pending p a) 0 = (v3_req p a)\<lparr>timer := Some 0\<rparr>" "sessionContext (v3_pending p a) = []"
  by (simp_all add: v3_pending_def registerRequest_def newSession_def Let_def getId_def
      v3_req_def v3_message_def)

theorem report_for_pending_request_witness:
  "callbacks (onMsg (\<lambda>_ _. v3_message) (Some (v3_report ''1.3.6.1.6.3.15.1.1.3.0'')) (v3_pending None False))
     = [(4, Failure (ResponseInvalidError ''Unknown User Name'' 5))]
   \<and> callbacks (onMsg (\<lambda>_ _. v3_message) (Some (v3_report ''1.3.6.1.6.3.15.1.1.3.1'')) (v3_pending None False))
     = [(4, Failure (ResponseInvalidError ''Unexpected Report PDU'' 5))]
   \<and> (\<exists>code. callbacks (onMsg (\<lambda>_ _. v3_message) (Some (v3_report ''1.3.6.1.6.3.15.1.2.0'')) (v3_pending None False))
     = [(4, Failure (ResponseInvalidError ''Unexpected Report PDU'' code))])
   \<and> callbacks (onMsg (\<lambda>_ _. v3_message) (Some (v3_report ''1.3.6.1.6.3.15.1.1.3.0''))
        (v3_pending (Some (mpdu v3_message)) True)) = []
   \<and> sending (onMsg (\<lambda>_ _. v3_message) (Some (v3_report ''1.3.6.1.6.3.15.1.1.3.0''))
        (v3_pending (Some (mpdu v3_message)) True)) = [(1, False, [48, 1])]"
proof -
  have h: "map_of (reqs (v3_pending p a)) (reqId (v3_report x)) = Some 0"
    "securityFailure (v3_report x) = None"
    "version (v3_report x) = version (rmessage (heap (v3_pending p a) 0))"
    "community (v3_report x) = community (rmessage (heap (v3_pending p a) 0))"
    "ptype (mpdu (v3_report x)) = Report"
    "msgSecurityParameters (v3_report x) = Some \<lparr> msgAuthoritativeEngineID = ''engine'',
         msgAuthoritativeEngineBoots = 0, msgAuthoritativeEngineTime = 0, msgUserName = None,
         msgAuthenticationParameters = None, msgPrivacyParameters = None \<rparr>"
    "proxy (v3_pending p a) = None"
    "pvarbinds (mpdu (v3_report x)) = [\<lparr> oid = x, vtype = 65, vvalue = Num 1 \<rparr>]" for p a x
    by (simp_all add: v3_pending_eval v3_report_def v3_req_def v3_message_def Report_def)
  have k: "''3'' \<in> set usmStatsKeys \<and> UsmStats ''3'' = Some ''Unknown User Name''
      \<and> (oid \<lparr> oid = ''1.3.6.1.6.3.15.1.1.3.0'', vtype = 65, vvalue = Num 1 \<rparr> = UsmStatsBase @ ''.'' @ ''3'' @ ''.0''
       \<or> oid \<lparr> oid = ''1.3.6.1.6.3.15.1.1.3.0'', vtype = 65, vvalue = Num 1 \<rparr> = UsmStatsBase @ ''.'' @ ''3'')"
    by (simp add: usmStatsKeys_def UsmStats_def UsmStatsBase_def)
  have out: "\<not> oidInSubtree UsmStatsBase (oid \<lparr> oid = ''1.3.6.1.6.3.15.1.2.0'', vtype = 65, vvalue = Num 1 \<rparr>)"
    by (simp add: oidInSubtree_def UsmStatsBase_def Let_def)
  have none: "originalPdu (heap (v3_pending None False) 0) = None \<or> \<not> allowReport (heap (v3_pending None False) 0)"
    by (simp add: v3_pending_eval v3_req_def)
  have some: "originalPdu (heap (v3_pending (Some (mpdu v3_message)) True) 0) = Some (mpdu v3_message)
     \<and> allowReport (heap (v3_pending (Some (mpdu v3_message)) True) 0)
     \<and> wire ((\<lambda>_ _. v3_message) (Some \<lparr> msgAuthoritativeEngineID = msgAuthoritativeEngineID \<lparr> msgAuthoritativeEngineID = ''engine'',
         msgAuthoritativeEngineBoots = 0, msgAuthoritativeEngineTime = 0, msgUserName = None,
         msgAuthenticationParameters = None, msgPrivacyParameters = None \<rparr>,
                          msgAuthoritativeEngineBoots = msgAuthoritativeEngineBoots \<lparr> msgAuthoritativeEngineID = ''engine'',
         msgAuthoritativeEngineBoots = 0, msgAuthoritativeEngineTime = 0, msgUserName = None,
         msgAuthenticationParameters = None, msgPrivacyParameters = None \<rparr>,
                          msgAuthoritativeEngineTime = msgAuthoritativeEngineTime \<lparr> msgAuthoritativeEngineID = ''engine'',
         msgAuthoritativeEngineBoots = 0, msgAuthoritativeEngineTime = 0, msgUserName = None,
         msgAuthenticationParameters = None, msgPrivacyParameters = None \<rparr>,
                          msgUserName = None, msgAuthenticationParameters = None,
                          msgPrivacyParameters = None \<rparr>)
                       ((mpdu v3_message)\<lparr>contextName := sessionContext (v3_pending (Some (mpdu v3_message)) True)\<rparr>)) = Some [48, 1]"
    by (simp add: v3_pending_eval v3_req_def v3_message_def)
  note t1 = report_for_pending_request [where s = "v3_pending None False" and m = "v3_report ''1.3.6.1.6.3.15.1.1.3.0''" and r = 0
      and k = "''3''" and name = "''Unknown User Name''" and cr = "\<lambda>_ _. v3_message"
      and ?p0.0 = "mpdu v3_message" and buffer = "[48, 1]", OF h]
  note t2 = report_for_pending_request [where s = "v3_pending None False" and m = "v3_report ''1.3.6.1.6.3.15.1.2.0''" and r = 0
      and k = "''3''" and name = "''Unknown User Name''" and cr = "\<lambda>_ _. v3_message"
      and ?p0.0 = "mpdu v3_message" and buffer = "[48, 1]", OF h]
  note t3 = report_for_pending_request [where s = "v3_pending (Some (mpdu v3_message)) True" and m = "v3_report ''1.3.6.1.6.3.15.1.1.3.0''" and r = 0
      and k = "''3''" and name = "''Unknown User Name''" and cr = "\<lambda>_ _. v3_message"
      and ?p0.0 = "mpdu v3_message" and buffer = "[48, 1]", OF h]
  note t4 = report_for_pending_request [where s = "v3_pending None False" and m = "v3_report ''1.3.6.1.6.3.15.1.1.3.1''" and r = 0
      and k = "''3''" and name = "''Unknown User Name''" and cr = "\<lambda>_ _. v3_message"
      and ?p0.0 = "mpdu v3_message" and buffer = "[48, 1]", OF h]
  have und: "oidInSubtree UsmStatsBase (oid \<lparr> oid = ''1.3.6.1.6.3.15.1.1.3.1'', vtype = 65, vvalue = Num 1 \<rparr>)
      \<and> dottedDecimal (oid \<lparr> oid = ''1.3.6.1.6.3.15.1.1.3.1'', vtype = 65, vvalue = Num 1 \<rparr>)
      \<and> (\<forall>k \<in> set usmStatsKeys.
            oid \<lparr> oid = ''1.3.6.1.6.3.15.1.1.3.1'', vtype = 65, vvalue = Num 1 \<rparr> \<noteq> UsmStatsBase @ ''.'' @ k @ ''.0''
          \<and> oid \<lparr> oid = ''1.3.6.1.6.3.15.1.1.3.1'', vtype = 65, vvalue = Num 1 \<rparr> \<noteq> UsmStatsBase @ ''.'' @ k)"
    by (simp add: oidInSubtree_def Let_def dottedDecimal_def isDigit_def usmStatsKeys_def UsmStatsBase_def)
  have r: "responseCb (heap (v3_pending p a) 0) = 4" "callbacks (v3_pending p a) = []"
     "sending (v3_pending p a) = []" "nextRef (v3_pending p a) = 1" for p a
    by (simp_all add: v3_pending_eval v3_req_def)
  from t1 k none
  have 1: "callbacks (onMsg (\<lambda>_ _. v3_message) (Some (v3_report ''1.3.6.1.6.3.15.1.1.3.0'')) (v3_pending None False))
     = [(4, Failure (ResponseInvalidError ''Unknown User Name'' 5))]"
    by (simp add: r EAuthFailure_def)
  from t2 out none
  have 2: "\<exists>code. callbacks (onMsg (\<lambda>_ _. v3_message) (Some (v3_report ''1.3.6.1.6.3.15.1.2.0'')) (v3_pending None False))
     = [(4, Failure (ResponseInvalidError ''Unexpected Report PDU'' code))]"
    by (simp add: r)
  from t4 und none
  have 4: "callbacks (onMsg (\<lambda>_ _. v3_message) (Some (v3_report ''1.3.6.1.6.3.15.1.1.3.1'')) (v3_pending None False))
     = [(4, Failure (ResponseInvalidError ''Unexpected Report PDU'' 5))]"
    by (simp add: r EAuthFailure_def)
  from t3 some
  have 3: "callbacks (onMsg (\<lambda>_ _. v3_message) (Some (v3_report ''1.3.6.1.6.3.15.1.1.3.0''))
        (v3_pending (Some (mpdu v3_message)) True)) = []
   \<and> sending (onMsg (\<lambda>_ _. v3_message) (Some (v3_report ''1.3.6.1.6.3.15.1.1.3.0''))
        (v3_pending (Some (mpdu v3_message)) True)) = [(1, False, [48, 1])]"
    by (simp add: r)
  from 1 2 3 4 show ?thesis by blast
qed

text \<open>
  An OID under the subtree that is not one of the six statistics: for
  \<open>1.3.6.1.6.3.15.1.1.7.0\<close> the failure delivered has the message "Unexpected Report PDU",
  there being no name for the suffix \<open>7\<close>; and no statistic has that message as its name.
\<close>

theorem report_unnamed_statistic:
  "oidInSubtree UsmStatsBase ''1.3.6.1.6.3.15.1.1.7.0''
   \<and> UsmStats ''7'' = None
   \<and> ''Unexpected Report PDU'' \<notin> ran UsmStats
   \<and> callbacks (onMsg (\<lambda>_ _. v3_message) (Some (v3_report ''1.3.6.1.6.3.15.1.1.7.0'')) (v3_pending None False))
     = [(4, Failure (ResponseInvalidError ''Unexpected Report PDU'' 5))]"
proof -
  define m where "m = v3_report ''1.3.6.1.6.3.15.1.1.7.0''"
  define s1 where "s1 = fst (unregisterRequest (reqId m) (v3_pending None False))"
  define s2 where "s2 = s1\<lparr>sessionSecurityParameters := Some \<lparr> msgAuthoritativeEngineID = ''engine'',
         msgAuthoritativeEngineBoots = 0, msgAuthoritativeEngineTime = 0, msgUserName = None,
         msgAuthenticationParameters = None, msgPrivacyParameters = None \<rparr>\<rparr>"
  have a: "oidInSubtree UsmStatsBase ''1.3.6.1.6.3.15.1.1.7.0''"
    by (simp add: oidInSubtree_def Let_def UsmStatsBase_def)
  have b: "UsmStats ''7'' = None" by (simp add: UsmStats_def)
  have p: "map_of (reqs (v3_pending None False)) (reqId m) = Some 0"
    by (simp add: v3_pending_eval v3_report_def m_def)
  have step: "onMsg (\<lambda>_ _. v3_message) (Some m) (v3_pending None False)
      = onReport (\<lambda>_ _. v3_message) 0 m s1"
    unfolding s1_def
    by (rule onMsg_report [OF p])
       (simp_all add: m_def v3_pending_eval v3_report_def v3_req_def v3_message_def Report_def)
  note u = unregister_present [OF p, folded s1_def]
  have mf: "msgSecurityParameters m = Some \<lparr> msgAuthoritativeEngineID = ''engine'',
         msgAuthoritativeEngineBoots = 0, msgAuthoritativeEngineTime = 0, msgUserName = None,
         msgAuthenticationParameters = None, msgPrivacyParameters = None \<rparr>"
    "pvarbinds (mpdu m) = [\<lparr> oid = ''1.3.6.1.6.3.15.1.1.7.0'', vtype = 65, vvalue = Num 1 \<rparr>]"
    by (simp_all add: m_def v3_report_def)
  have q: "originalPdu (heap s1 0) = None" "responseCb (heap s1 0) = 4" "proxy s1 = None"
    "callbacks s1 = []"
    by (simp_all add: u v3_pending_eval v3_req_def)
  have und: "oidInSubtree UsmStatsBase (oid \<lparr> oid = ''1.3.6.1.6.3.15.1.1.7.0'', vtype = 65, vvalue = Num 1 \<rparr>)"
    "dottedDecimal (oid \<lparr> oid = ''1.3.6.1.6.3.15.1.1.7.0'', vtype = 65, vvalue = Num 1 \<rparr>)"
    "\<forall>k \<in> set usmStatsKeys.
        oid \<lparr> oid = ''1.3.6.1.6.3.15.1.1.7.0'', vtype = 65, vvalue = Num 1 \<rparr> \<noteq> UsmStatsBase @ ''.'' @ k @ ''.0''
      \<and> oid \<lparr> oid = ''1.3.6.1.6.3.15.1.1.7.0'', vtype = 65, vvalue = Num 1 \<rparr> \<noteq> UsmStatsBase @ ''.'' @ k"
    by (simp_all add: oidInSubtree_def Let_def dottedDecimal_def isDigit_def usmStatsKeys_def
        UsmStatsBase_def)
  have rr: "reportRefused 0 m s2
      = deliver 0 (Failure (ResponseInvalidError ''Unexpected Report PDU'' EAuthFailure)) s2"
    by (rule refused_under_unnamed [OF mf(2) und])
  have on: "onReport (\<lambda>_ _. v3_message) 0 m s1 = reportRefused 0 m s2"
    by (simp add: onReport_def Let_def mf(1) q s2_def)
  have c: "callbacks (onMsg (\<lambda>_ _. v3_message) (Some m) (v3_pending None False))
     = [(4, Failure (ResponseInvalidError ''Unexpected Report PDU'' 5))]"
    unfolding step on rr by (simp add: deliver_def q s2_def EAuthFailure_def)
  have d: "''Unexpected Report PDU'' \<notin> ran UsmStats"
    by (auto simp add: ran_def UsmStats_def split: if_splits)
  from a b d c [unfolded m_def] show ?thesis by blast
qed

end
